theory Spec2Isabelle
  imports Main "HOL-Library.Multiset"
begin

section \<open>KML pole number extraction: the core of \<open>backend/main.py\<close>\<close>

text \<open>
  The development embeds two functions of \<open>backend/main.py\<close>: \<open>extract_number\<close>
  (lines 74 to 99) and \<open>process_kml_file\<close> (lines 102 to 135), together with the
  Python string operations and the pandas operations they call.

  Modelling decisions, each visible in the definitions below:
  \<^item> A Python \<open>str\<close> is a \<open>string\<close>, a list of 8-bit characters read as the code
    points 0 to 255 (ASCII and the Latin-1 supplement, what \<open>decode('latin-1')\<close>
    gives). On these code points \<open>isspace\<close>, \<open>isalpha_char\<close> and \<open>isdigit\<close> are
    Python's \<open>str.isspace\<close>, \<open>str.isalpha\<close> and the class \<open>\d\<close> of the regular
    expressions, and \<open>upper_char\<close> is \<open>str.upper\<close> with three exceptions: the upper
    case of U+00B5, U+00DF and U+00FF is no single code point below 256, and the model
    leaves these three as they are. A label with a code point from 256 on has no image
    in the model.
  \<^item> A Python \<open>int\<close> is an \<open>int\<close>. The conversion \<open>int(s)\<close> has the interpreter's
    bound on the number of digits: a string of more than 4300 digits raises
    \<open>ValueError\<close>.
  \<^item> Everything that can raise returns a sum, with the exception on the left.
\<close>

subsection \<open>Values and exceptions\<close>

text \<open>The scalar values \<open>extract_number\<close> can be handed: \<open>None\<close>, a float that is
  NaN, a number that is not a string, or a string.\<close>

datatype pyval = PyNone | PyNaN | PyInt int | PyStr string

datatype error = ValueError | HTTPException nat string

text \<open>\<open>pd.isna\<close> on a scalar, and \<open>isinstance(v, str)\<close>.\<close>

fun isna :: "pyval \<Rightarrow> bool" where
  "isna PyNone = True"
| "isna PyNaN = True"
| "isna (PyInt _) = False"
| "isna (PyStr _) = False"

fun is_str :: "pyval \<Rightarrow> bool" where
  "is_str (PyStr _) = True"
| "is_str _ = False"

subsection \<open>Characters\<close>

definition isspace :: "char \<Rightarrow> bool" where
  "isspace c =
     (let n = (of_char c :: nat) in
      (9 \<le> n \<and> n \<le> 13) \<or> (28 \<le> n \<and> n \<le> 32) \<or> n = 133 \<or> n = 160)"

definition isdigit :: "char \<Rightarrow> bool" where
  "isdigit c = (let n = (of_char c :: nat) in 48 \<le> n \<and> n \<le> 57)"

definition isalpha_char :: "char \<Rightarrow> bool" where
  "isalpha_char c =
     (let n = (of_char c :: nat) in
      (65 \<le> n \<and> n \<le> 90) \<or> (97 \<le> n \<and> n \<le> 122) \<or> n = 170 \<or> n = 181 \<or> n = 186
      \<or> (192 \<le> n \<and> n \<le> 214) \<or> (216 \<le> n \<and> n \<le> 246) \<or> 248 \<le> n)"

definition upper_char :: "char \<Rightarrow> char" where
  "upper_char c =
     (let n = (of_char c :: nat) in
      if (97 \<le> n \<and> n \<le> 122) \<or> (224 \<le> n \<and> n \<le> 246) \<or> (248 \<le> n \<and> n \<le> 254)
      then char_of (n - 32) else c)"

definition digit_val :: "char \<Rightarrow> nat" where
  "digit_val c = of_char c - 48"

definition digit_char :: "nat \<Rightarrow> char" where
  "digit_char d = char_of (48 + d)"

subsection \<open>String methods\<close>

text \<open>\<open>s.strip()\<close>, \<open>s.upper()\<close>, \<open>s.replace(' ', '')\<close>, \<open>s.isalpha()\<close> (false on
  the empty string), \<open>s.lstrip('0')\<close>.\<close>

definition py_strip :: "string \<Rightarrow> string" where
  "py_strip s = rev (dropWhile isspace (rev (dropWhile isspace s)))"

definition py_upper :: "string \<Rightarrow> string" where
  "py_upper s = map upper_char s"

definition remove_spaces :: "string \<Rightarrow> string" where
  "remove_spaces s = filter (\<lambda>c. c \<noteq> CHR '' '') s"

definition py_isalpha :: "string \<Rightarrow> bool" where
  "py_isalpha s = (s \<noteq> [] \<and> list_all isalpha_char s)"

definition lstrip_zeros :: "string \<Rightarrow> string" where
  "lstrip_zeros s = dropWhile (\<lambda>c. c = CHR ''0'') s"

text \<open>\<open>s.split()\<close>: skip whitespace, cut the token at the next whitespace, go on
  with the rest. No token is empty.\<close>

function py_split :: "string \<Rightarrow> string list" where
  "py_split s =
     (let s' = dropWhile isspace s in
      if s' = [] then []
      else takeWhile (\<lambda>c. \<not> isspace c) s' # py_split (dropWhile (\<lambda>c. \<not> isspace c) s'))"
  by pat_completeness auto
termination
proof (relation "measure length")
  show "wf (measure length)" by simp
next
  fix s s' :: string
  assume a: "s' = dropWhile isspace s" "s' \<noteq> []"
  from a(2) obtain c cs where s': "s' = c # cs"
    using list.exhaust by blast
  have "\<not> isspace c"
    using a s' by (metis hd_dropWhile list.sel(1))
  then have "dropWhile (\<lambda>c. \<not> isspace c) s' = dropWhile (\<lambda>c. \<not> isspace c) cs"
    by (simp add: s')
  then have "length (dropWhile (\<lambda>c. \<not> isspace c) s') < length s'"
    using length_dropWhile_le [of "\<lambda>c. \<not> isspace c" cs] by (simp add: s')
  moreover have "length s' \<le> length s"
    using a by (simp add: length_dropWhile_le)
  ultimately show "(dropWhile (\<lambda>c. \<not> isspace c) s', s) \<in> measure length"
    by simp
qed

declare py_split.simps [simp del]

subsection \<open>The regular expression \<open>\d+\<close>\<close>

text \<open>\<open>re.search(r'\d+', s)\<close>: the leftmost match, as long as it can be; \<open>None\<close>
  when \<open>s\<close> has no digit. The result is the matched text (\<open>.group()\<close>).\<close>

definition re_search_digits :: "string \<Rightarrow> string option" where
  "re_search_digits s =
     (let s' = dropWhile (\<lambda>c. \<not> isdigit c) s in
      if s' = [] then None else Some (takeWhile isdigit s'))"

text \<open>\<open>re.findall(r'\d+', s)\<close>: every match, left to right, without overlap.\<close>

function re_findall_digits :: "string \<Rightarrow> string list" where
  "re_findall_digits s =
     (let s' = dropWhile (\<lambda>c. \<not> isdigit c) s in
      if s' = [] then []
      else takeWhile isdigit s' # re_findall_digits (dropWhile isdigit s'))"
  by pat_completeness auto
termination
proof (relation "measure length")
  show "wf (measure length)" by simp
next
  fix s s' :: string
  assume a: "s' = dropWhile (\<lambda>c. \<not> isdigit c) s" "s' \<noteq> []"
  from a(2) obtain c cs where s': "s' = c # cs"
    using list.exhaust by blast
  have "isdigit c"
    using a s' hd_dropWhile [of "\<lambda>c. \<not> isdigit c" s] by (metis list.sel(1))
  then have "dropWhile isdigit s' = dropWhile isdigit cs"
    by (simp add: s')
  then have "length (dropWhile isdigit s') < length s'"
    using length_dropWhile_le [of isdigit cs] by (simp add: s')
  moreover have "length s' \<le> length s"
    using a by (simp add: length_dropWhile_le)
  ultimately show "(dropWhile isdigit s', s) \<in> measure length"
    by simp
qed

declare re_findall_digits.simps [simp del]

subsection \<open>Integers and their decimal text\<close>

text \<open>\<open>int(s)\<close> on a string: the value of a non-empty string of digits, unless the
  string is longer than \<open>sys.int_info.default_max_str_digits\<close>, which is 4300: then
  CPython raises \<open>ValueError\<close>. Python also reads a sign, surrounding whitespace
  and underscores; no digit run has them, and the model raises on every string that is
  not a plain run of digits.\<close>

definition decimal_value :: "string \<Rightarrow> int" where
  "decimal_value s = foldl (\<lambda>a c. 10 * a + int (digit_val c)) 0 s"

definition int_max_str_digits :: nat where
  "int_max_str_digits = 4300"

definition py_int :: "string \<Rightarrow> error + int" where
  "py_int s =
     (if s \<noteq> [] \<and> list_all isdigit s \<and> length s \<le> int_max_str_digits
      then Inr (decimal_value s) else Inl ValueError)"

text \<open>\<open>str(n)\<close>, which is also what an f-string prints for an integer. It is only
  applied to keys \<open>int\<close> has returned, which have at most 4300 digits, so the bound
  of the conversion to text is never met.\<close>

function digits_of :: "nat \<Rightarrow> string" where
  "digits_of n = (if n < 10 then [digit_char n] else digits_of (n div 10) @ [digit_char (n mod 10)])"
  by pat_completeness auto
termination
  by (relation "measure id") auto

declare digits_of.simps [simp del]

definition py_str :: "int \<Rightarrow> string" where
  "py_str i = (if i < 0 then CHR ''-'' # digits_of (nat (- i)) else digits_of (nat i))"

subsection \<open>\<open>extract_number\<close>\<close>

text \<open>\<open>int(number_str.lstrip('0') or 0)\<close>: the empty string is falsy, so a run of
  zeros gives \<open>int(0)\<close>.\<close>

definition int_of_run :: "string \<Rightarrow> error + int" where
  "int_of_run number_str =
     (let t = lstrip_zeros number_str in if t = [] then Inr 0 else py_int t)"

text \<open>The loop over the parts: the first part with a digit returns. \<open>None\<close> means
  that the loop ended without returning.\<close>

fun scan_parts :: "string list \<Rightarrow> (error + int) option" where
  "scan_parts [] = None"
| "scan_parts (part # parts) =
     (case re_search_digits part of
        Some number_str \<Rightarrow> Some (int_of_run number_str)
      | None \<Rightarrow> scan_parts parts)"

text \<open>The search of the whole string, after the loop.\<close>

definition fallback_scan :: "string \<Rightarrow> error + int" where
  "fallback_scan id_str =
     (case re_findall_digits id_str of
        [] \<Rightarrow> Inr 0
      | number_str # _ \<Rightarrow> int_of_run number_str)"

definition extract_number :: "pyval \<Rightarrow> error + int" where
  "extract_number v =
     (if isna v \<or> \<not> is_str v then Inr 0
      else case v of
        PyStr s \<Rightarrow>
          (let id_str = py_upper (py_strip s) in
           if id_str = [] \<or> py_isalpha (remove_spaces id_str) then Inr 0
           else case scan_parts (py_split id_str) of
                  Some r \<Rightarrow> r
                | None \<Rightarrow> fallback_scan id_str)
      | _ \<Rightarrow> Inr 0)"

text \<open>The variant the refinement claim compares with: \<open>extract_number\<close> with the
  search of the whole string left out, so that a loop that ends without returning
  gives 0.\<close>

definition extract_number_token_scan :: "pyval \<Rightarrow> error + int" where
  "extract_number_token_scan v =
     (if isna v \<or> \<not> is_str v then Inr 0
      else case v of
        PyStr s \<Rightarrow>
          (let id_str = py_upper (py_strip s) in
           if id_str = [] \<or> py_isalpha (remove_spaces id_str) then Inr 0
           else case scan_parts (py_split id_str) of
                  Some r \<Rightarrow> r
                | None \<Rightarrow> Inr 0)
      | _ \<Rightarrow> Inr 0)"

subsection \<open>The data frame\<close>

text \<open>A row of the frame the parser returns has the columns \<open>ID\<close>, \<open>Latitude\<close>
  and \<open>Longitude\<close>; \<open>process_kml_file\<close> adds \<open>number\<close> and \<open>formatted_ID\<close>. The
  coordinates are only carried along, so their type is left open.\<close>

record 'f raw_record =
  ID :: string
  Latitude :: 'f
  Longitude :: 'f

record 'f keyed_record = "'f raw_record" +
  number :: int
  formatted_ID :: string

record 'f summary =
  total_poles :: nat
  duplicate_numbers :: "int list"
  duplicate_count :: nat
  sample_data :: "'f keyed_record list"

text \<open>\<open>Series.apply(f)\<close>: \<open>f\<close> on every entry, top to bottom; the first exception
  ends it.\<close>

fun series_apply :: "('a \<Rightarrow> error + 'b) \<Rightarrow> 'a list \<Rightarrow> error + 'b list" where
  "series_apply f [] = Inr []"
| "series_apply f (x # xs) =
     (case f x of
        Inl e \<Rightarrow> Inl e
      | Inr y \<Rightarrow> (case series_apply f xs of Inl e \<Rightarrow> Inl e | Inr ys \<Rightarrow> Inr (y # ys)))"

text \<open>The lambda of line 113: \<open>f'P{number}' if number > 0 else str(ID).strip().upper()\<close>.\<close>

definition format_id :: "string \<Rightarrow> int \<Rightarrow> string" where
  "format_id ident n = (if n > 0 then CHR ''P'' # py_str n else py_upper (py_strip ident))"

definition add_columns :: "'f raw_record \<Rightarrow> int \<Rightarrow> 'f keyed_record" where
  "add_columns r n =
     \<lparr>ID = ID r, Latitude = Latitude r, Longitude = Longitude r,
      number = n, formatted_ID = format_id (ID r) n\<rparr>"

text \<open>
  \<open>df.sort_values(by='number')\<close> asks the library for an index order of the key
  column (an argsort, of the default kind \<open>quicksort\<close>) and takes the rows in that
  order. The sorting routine is the library's and not part of the program, so it is a
  parameter \<open>argsort\<close> here. What the call promises of it is \<open>argsort_ok\<close>: the
  result lists every position once, and the keys read in that order ascend. The order
  of rows with equal keys is whatever the routine gives.
\<close>

definition sort_values :: "(int list \<Rightarrow> nat list) \<Rightarrow> 'f keyed_record list \<Rightarrow> 'f keyed_record list" where
  "sort_values argsort df = map (\<lambda>i. df ! i) (argsort (map number df))"

definition argsort_ok :: "(int list \<Rightarrow> nat list) \<Rightarrow> bool" where
  "argsort_ok argsort =
     (\<forall>ks. mset (argsort ks) = mset [0..<length ks] \<and> sorted (map (\<lambda>i. ks ! i) (argsort ks)))"

text \<open>An argsort that keeps equal keys in their order, to run the pipeline on
  examples.\<close>

definition stable_argsort :: "int list \<Rightarrow> nat list" where
  "stable_argsort ks = sort_key (\<lambda>i. ks ! i) [0..<length ks]"

text \<open>\<open>df.duplicated(subset=['number'], keep=False)\<close> marks every row whose key
  occurs more than once; \<open>df[mask]\<close> keeps the marked rows; \<open>unique()\<close> lists the
  values in the order of their first occurrence.\<close>

definition duplicated :: "int list \<Rightarrow> bool list" where
  "duplicated ks = map (\<lambda>k. 2 \<le> count_list ks k) ks"

definition select_rows :: "'a list \<Rightarrow> bool list \<Rightarrow> 'a list" where
  "select_rows df flags = map fst (filter snd (zip df flags))"

fun unique_from :: "'a list \<Rightarrow> 'a list \<Rightarrow> 'a list" where
  "unique_from seen [] = []"
| "unique_from seen (x # xs) =
     (if x \<in> set seen then unique_from seen xs else x # unique_from (x # seen) xs)"

definition unique :: "'a list \<Rightarrow> 'a list" where
  "unique xs = unique_from [] xs"

subsection \<open>\<open>process_kml_file\<close>\<close>

text \<open>The argument \<open>df0\<close> is the frame \<open>parse_kml_points_to_df\<close> returned. An
  empty frame raises the HTTP error of line 108.\<close>

definition process_kml_file ::
  "(int list \<Rightarrow> nat list) \<Rightarrow> 'f raw_record list \<Rightarrow> error + ('f keyed_record list \<times> 'f summary)" where
  "process_kml_file argsort df0 =
     (if df0 = [] then Inl (HTTPException 400 ''No valid placemarks found in KML file'')
      else case series_apply (\<lambda>ident. extract_number (PyStr ident)) (map ID df0) of
        Inl e \<Rightarrow> Inl e
      | Inr numbers \<Rightarrow>
          (let df1 = map2 add_columns df0 numbers;
               df = sort_values argsort df1;
               duplicated_df = select_rows df (duplicated (map number df));
               duplicated_numbers = unique (map number duplicated_df);
               duplicated_numbers = filter (\<lambda>num. num > 0) duplicated_numbers;
               result = \<lparr>total_poles = length df,
                         duplicate_numbers = duplicated_numbers,
                         duplicate_count = length duplicated_numbers,
                         sample_data = take 10 df\<rparr>
           in Inr (df, result)))"

subsection \<open>Names for what the pipeline computes\<close>

text \<open>\<open>number_of\<close> is the integer \<open>extract_number\<close> returns on an identifier (it
  always returns one), \<open>keyed\<close> is a row with its two new columns, and \<open>raw_of\<close>
  reads the three columns of the parser back from a row. They only serve to state and
  prove the properties below.\<close>

definition number_of :: "string \<Rightarrow> int" where
  "number_of ident = (case extract_number (PyStr ident) of Inr n \<Rightarrow> n | Inl _ \<Rightarrow> 0)"

definition keyed :: "'f raw_record \<Rightarrow> 'f keyed_record" where
  "keyed r = add_columns r (number_of (ID r))"

definition raw_of :: "'f keyed_record \<Rightarrow> 'f raw_record" where
  "raw_of r = \<lparr>ID = ID r, Latitude = Latitude r, Longitude = Longitude r\<rparr>"

section \<open>Auxiliary facts\<close>

subsection \<open>Facts about the character classes\<close>

lemma isdigit_not_isspace: "isdigit c \<Longrightarrow> \<not> isspace c"
  by (auto simp: isdigit_def isspace_def Let_def)

lemma isdigit_not_isalpha: "isdigit c \<Longrightarrow> \<not> isalpha_char c"
  by (auto simp: isdigit_def isalpha_char_def Let_def)

lemma isspace_not_isalpha: "isspace c \<Longrightarrow> \<not> isalpha_char c"
  by (auto simp: isspace_def isalpha_char_def Let_def)

lemma of_char_upper_char:
  "(of_char (upper_char c) :: nat) =
     (if (97 \<le> (of_char c :: nat) \<and> (of_char c :: nat) \<le> 122)
         \<or> (224 \<le> (of_char c :: nat) \<and> (of_char c :: nat) \<le> 246)
         \<or> (248 \<le> (of_char c :: nat) \<and> (of_char c :: nat) \<le> 254)
      then of_char c - 32 else of_char c)"
  by (auto simp: upper_char_def Let_def)

lemma isdigit_upper_char [simp]: "isdigit (upper_char c) = isdigit c"
  unfolding isdigit_def Let_def of_char_upper_char by auto

lemma isspace_upper_char [simp]: "isspace (upper_char c) = isspace c"
  unfolding isspace_def Let_def of_char_upper_char by auto

lemma upper_char_digit: "isdigit c \<Longrightarrow> upper_char c = c"
  by (auto simp: isdigit_def upper_char_def Let_def)

lemma isdigit_digit_char: "d < 10 \<Longrightarrow> isdigit (digit_char d)"
  by (simp add: isdigit_def digit_char_def Let_def)

lemma digit_val_digit_char: "d < 10 \<Longrightarrow> digit_val (digit_char d) = d"
  by (simp add: digit_val_def digit_char_def)

lemma digit_char_zero: "d < 10 \<Longrightarrow> digit_char d = CHR ''0'' \<longleftrightarrow> d = 0"
proof -
  assume d: "d < 10"
  have "digit_char d = CHR ''0'' \<longleftrightarrow> (of_char (digit_char d) :: nat) = of_char CHR ''0''"
    by (metis of_char_eq_iff)
  also have "\<dots> \<longleftrightarrow> d = 0"
    using d by (simp add: digit_char_def)
  finally show ?thesis .
qed

subsection \<open>Decimal values\<close>

lemma decimal_value_Nil [simp]: "decimal_value [] = 0"
  by (simp add: decimal_value_def)

lemma decimal_value_snoc:
  "decimal_value (s @ [c]) = 10 * decimal_value s + int (digit_val c)"
  by (simp add: decimal_value_def)

lemma decimal_value_zero_Cons: "decimal_value (CHR ''0'' # s) = decimal_value s"
  by (simp add: decimal_value_def digit_val_def)

lemma decimal_value_nonneg: "0 \<le> decimal_value s"
  by (induction s rule: rev_induct) (simp_all add: decimal_value_snoc)

lemma decimal_value_lstrip_zeros: "decimal_value (lstrip_zeros s) = decimal_value s"
  by (induction s) (simp_all add: lstrip_zeros_def decimal_value_zero_Cons)

lemma list_all_lstrip_zeros: "list_all isdigit s \<Longrightarrow> list_all isdigit (lstrip_zeros s)"
  by (auto simp: lstrip_zeros_def list_all_iff dest: set_dropWhileD)

lemma int_of_run_digits:
  assumes "list_all isdigit r"
  shows "int_of_run r =
    (if int_max_str_digits < length (lstrip_zeros r) then Inl ValueError
     else Inr (decimal_value r))"
proof (cases "lstrip_zeros r = []")
  case True
  then have "decimal_value r = 0"
    using decimal_value_lstrip_zeros [of r] by simp
  with True show ?thesis by (simp add: int_of_run_def)
next
  case False
  then show ?thesis
    using list_all_lstrip_zeros [OF assms]
    by (simp add: int_of_run_def py_int_def decimal_value_lstrip_zeros)
qed

lemma int_of_run_within:
  "list_all isdigit r \<Longrightarrow> length (lstrip_zeros r) \<le> int_max_str_digits \<Longrightarrow>
   int_of_run r = Inr (decimal_value r)"
  by (simp add: int_of_run_digits)

lemma int_of_run_beyond:
  "list_all isdigit r \<Longrightarrow> int_max_str_digits < length (lstrip_zeros r) \<Longrightarrow>
   int_of_run r = Inl ValueError"
  by (simp add: int_of_run_digits)

lemma all_zeros_value: "list_all (\<lambda>c. c = CHR ''0'') r \<Longrightarrow> decimal_value r = 0"
  by (induction r) (simp_all add: decimal_value_zero_Cons)

subsection \<open>Digit runs\<close>

lemma re_search_digits_None_iff:
  "re_search_digits s = None \<longleftrightarrow> list_all (\<lambda>c. \<not> isdigit c) s"
  by (auto simp: re_search_digits_def Let_def dropWhile_eq_Nil_conv list_all_iff)

lemma re_search_digits_Some:
  "re_search_digits s = Some m \<Longrightarrow> m \<noteq> [] \<and> list_all isdigit m"
proof -
  assume a: "re_search_digits s = Some m"
  let ?s' = "dropWhile (\<lambda>c. \<not> isdigit c) s"
  from a have ne: "?s' \<noteq> []" and m: "m = takeWhile isdigit ?s'"
    by (auto simp: re_search_digits_def Let_def split: if_splits)
  from ne have "isdigit (hd ?s')"
    using hd_dropWhile [of "\<lambda>c. \<not> isdigit c" s] by simp
  with ne have "m \<noteq> []"
    unfolding m by (cases ?s') auto
  moreover have "list_all isdigit m"
    unfolding m list_all_iff by (auto dest: set_takeWhileD)
  ultimately show ?thesis by simp
qed

lemma re_search_digits_decomp:
  assumes "list_all (\<lambda>c. \<not> isdigit c) pre" "run \<noteq> []" "list_all isdigit run"
    and "post = [] \<or> \<not> isdigit (hd post)"
  shows "re_search_digits (pre @ run @ post) = Some run"
proof -
  obtain d ds where run: "run = d # ds"
    using assms(2) by (cases run) auto
  have d: "isdigit d"
    using assms(3) run by simp
  have "dropWhile (\<lambda>c. \<not> isdigit c) (pre @ run @ post) = run @ post"
    using assms(1) d by (simp add: run list_all_iff dropWhile_append2)
  moreover have "takeWhile isdigit (run @ post) = run"
  proof (cases post)
    case Nil
    then show ?thesis using assms(3) by (simp add: list_all_iff)
  next
    case (Cons x xs)
    with assms(4) have "\<not> isdigit x" by simp
    with assms(3) Cons show ?thesis
      by (simp add: list_all_iff takeWhile_append2)
  qed
  ultimately show ?thesis
    by (simp add: re_search_digits_def Let_def run)
qed

lemma re_findall_digits_no_digit:
  "list_all (\<lambda>c. \<not> isdigit c) s \<Longrightarrow> re_findall_digits s = []"
  by (subst re_findall_digits.simps) (simp add: Let_def dropWhile_eq_Nil_conv list_all_iff)

lemma scan_parts_None_iff:
  "scan_parts ps = None \<longleftrightarrow> list_all (\<lambda>p. list_all (\<lambda>c. \<not> isdigit c) p) ps"
  by (induction ps) (auto simp: re_search_digits_None_iff [symmetric] split: option.splits)

lemma scan_parts_Some:
  "scan_parts ps = Some r \<Longrightarrow> \<exists>m. m \<noteq> [] \<and> list_all isdigit m \<and> r = int_of_run m"
  by (induction ps) (auto split: option.splits dest: re_search_digits_Some)

lemma scan_parts_first:
  assumes "list_all (\<lambda>p. list_all (\<lambda>c. \<not> isdigit c) p) before"
    and "re_search_digits t = Some m"
  shows "scan_parts (before @ t # after) = Some (int_of_run m)"
  using assms by (induction before) (simp_all add: re_search_digits_None_iff [symmetric])

subsection \<open>Tokens\<close>

lemma set_dropWhile_isspace:
  "c \<in> set s \<Longrightarrow> \<not> isspace c \<Longrightarrow> c \<in> set (dropWhile isspace s)"
  by (induction s) auto

lemma py_split_empty: "dropWhile isspace s = [] \<Longrightarrow> py_split s = []"
  by (subst py_split.simps) (simp add: Let_def)

lemma py_split_step:
  "dropWhile isspace s \<noteq> [] \<Longrightarrow>
   py_split s = takeWhile (\<lambda>c. \<not> isspace c) (dropWhile isspace s)
                # py_split (dropWhile (\<lambda>c. \<not> isspace c) (dropWhile isspace s))"
  by (subst py_split.simps) (simp add: Let_def)

lemma py_split_token_subset: "t \<in> set (py_split s) \<Longrightarrow> set t \<subseteq> set s"
proof (induction s arbitrary: t rule: py_split.induct)
  case (1 s)
  let ?s' = "dropWhile isspace s"
  show ?case
  proof (cases "?s' = []")
    case True
    with "1.prems" show ?thesis
      using py_split_empty [of s] by simp
  next
    case False
    with "1.prems" have "t = takeWhile (\<lambda>c. \<not> isspace c) ?s'
        \<or> t \<in> set (py_split (dropWhile (\<lambda>c. \<not> isspace c) ?s'))"
      using py_split_step [of s] by (simp del: dropWhile_eq_Nil_conv)
    then show ?thesis
    proof
      assume "t = takeWhile (\<lambda>c. \<not> isspace c) ?s'"
      then show ?thesis
        by (auto dest!: set_takeWhileD set_dropWhileD)
    next
      assume "t \<in> set (py_split (dropWhile (\<lambda>c. \<not> isspace c) ?s'))"
      then have "set t \<subseteq> set (dropWhile (\<lambda>c. \<not> isspace c) ?s')"
        using "1.IH" [OF refl False] by simp
      then show ?thesis
        by (auto dest!: set_dropWhileD)
    qed
  qed
qed

lemma py_split_covers:
  "c \<in> set s \<Longrightarrow> \<not> isspace c \<Longrightarrow> \<exists>t \<in> set (py_split s). c \<in> set t"
proof (induction s rule: py_split.induct)
  case (1 s)
  let ?s' = "dropWhile isspace s"
  let ?P = "\<lambda>c. \<not> isspace c"
  from "1.prems" have c: "c \<in> set ?s'"
    by (rule set_dropWhile_isspace)
  then have ne: "?s' \<noteq> []"
    by (metis empty_iff empty_set)
  have split: "py_split s = takeWhile ?P ?s' # py_split (dropWhile ?P ?s')"
    using ne by (rule py_split_step)
  have "c \<in> set (takeWhile ?P ?s') \<or> c \<in> set (dropWhile ?P ?s')"
    using c takeWhile_dropWhile_id [of ?P ?s'] by (metis Un_iff set_append)
  then show ?case
  proof
    assume "c \<in> set (takeWhile ?P ?s')"
    then show ?thesis by (simp add: split)
  next
    assume "c \<in> set (dropWhile ?P ?s')"
    then have "\<exists>t \<in> set (py_split (dropWhile ?P ?s')). c \<in> set t"
      using "1.IH" [OF refl ne] "1.prems"(2) by simp
    then show ?thesis by (auto simp: split)
  qed
qed

lemma scan_parts_split_None:
  "scan_parts (py_split s) = None \<Longrightarrow> list_all (\<lambda>c. \<not> isdigit c) s"
proof -
  assume a: "scan_parts (py_split s) = None"
  show ?thesis
    unfolding list_all_iff
  proof
    fix c assume c: "c \<in> set s"
    show "\<not> isdigit c"
    proof
      assume d: "isdigit c"
      then obtain t where "t \<in> set (py_split s)" "c \<in> set t"
        using py_split_covers [OF c] isdigit_not_isspace by blast
      with a d show False
        by (auto simp: scan_parts_None_iff list_all_iff)
    qed
  qed
qed

lemma scan_parts_no_digit:
  "list_all (\<lambda>c. \<not> isdigit c) s \<Longrightarrow> scan_parts (py_split s) = None"
  unfolding scan_parts_None_iff list_all_iff
  using py_split_token_subset by blast

lemma fallback_unreachable:
  "scan_parts (py_split s) = None \<Longrightarrow> fallback_scan s = Inr 0"
  by (simp add: fallback_scan_def re_findall_digits_no_digit scan_parts_split_None)

subsection \<open>Normalisation and tokens\<close>

lemma py_split_trailing:
  "list_all isspace ws \<Longrightarrow> py_split (s @ ws) = py_split s"
proof (induction s rule: py_split.induct)
  case (1 s)
  let ?s' = "dropWhile isspace s"
  let ?P = "\<lambda>c. \<not> isspace c"
  from "1.prems" have ws: "\<forall>x \<in> set ws. isspace x"
    by (simp add: list_all_iff)
  have ws_take: "takeWhile ?P ws = []" and ws_drop: "dropWhile ?P ws = ws"
    using ws by (cases ws; simp)+
  have ws_split: "py_split ws = []"
    using ws by (intro py_split_empty) simp
  show ?case
  proof (cases "?s' = []")
    case True
    then have "dropWhile isspace (s @ ws) = []"
      using ws by (auto simp: dropWhile_eq_Nil_conv)
    with True show ?thesis
      by (simp only: py_split_empty)
  next
    case False
    then obtain x where x: "x \<in> set s" "\<not> isspace x"
      by (auto simp: dropWhile_eq_Nil_conv)
    then have app: "dropWhile isspace (s @ ws) = ?s' @ ws"
      by (simp add: dropWhile_append1)
    then have ne: "dropWhile isspace (s @ ws) \<noteq> []"
      using False by simp
    have lhs: "py_split (s @ ws) = takeWhile ?P (?s' @ ws) # py_split (dropWhile ?P (?s' @ ws))"
      using py_split_step [OF ne] by (simp only: app)
    have rhs: "py_split s = takeWhile ?P ?s' # py_split (dropWhile ?P ?s')"
      using False by (rule py_split_step)
    show ?thesis
    proof (cases "\<exists>y \<in> set ?s'. isspace y")
      case True
      then obtain y where y: "y \<in> set ?s'" "isspace y" by blast
      then have "takeWhile ?P (?s' @ ws) = takeWhile ?P ?s'"
        and "dropWhile ?P (?s' @ ws) = dropWhile ?P ?s' @ ws"
        by (simp_all add: takeWhile_append1 dropWhile_append1)
      then show ?thesis
        using "1.IH" [OF refl False "1.prems"] by (simp only: lhs rhs)
    next
      case False
      then have t: "takeWhile ?P (?s' @ ws) = ?s'" "takeWhile ?P ?s' = ?s'"
        and d: "dropWhile ?P (?s' @ ws) = ws" "dropWhile ?P ?s' = []"
        by (simp_all add: takeWhile_append2 dropWhile_append2 ws_take ws_drop)
      have "py_split [] = []"
        by (rule py_split_empty) simp
      then show ?thesis
        by (simp only: lhs rhs t d ws_split)
    qed
  qed
qed

lemma py_split_leading: "py_split (dropWhile isspace s) = py_split s"
proof (cases "dropWhile isspace s = []")
  case True
  then have "py_split s = []" and "py_split [] = []"
    by (simp_all only: py_split_empty dropWhile.simps)
  then show ?thesis
    by (simp only: True)
next
  case False
  then show ?thesis
    using py_split_step [of s] py_split_step [of "dropWhile isspace s"]
    by (simp del: dropWhile_eq_Nil_conv)
qed

lemma py_split_strip: "py_split (py_strip s) = py_split s"
proof -
  let ?s' = "dropWhile isspace s"
  let ?ws = "rev (takeWhile isspace (rev ?s'))"
  have "py_strip s @ ?ws = ?s'"
    unfolding py_strip_def
    by (metis rev_append rev_rev_ident takeWhile_dropWhile_id)
  moreover have "list_all isspace ?ws"
    by (auto simp: list_all_iff dest: set_takeWhileD)
  ultimately have "py_split ?s' = py_split (py_strip s)"
    using py_split_trailing [of ?ws "py_strip s"] by simp
  then show ?thesis
    by (simp add: py_split_leading)
qed

lemma isspace_comp_upper: "isspace \<circ> upper_char = isspace"
  and not_isspace_comp_upper: "(\<lambda>c. \<not> isspace c) \<circ> upper_char = (\<lambda>c. \<not> isspace c)"
  and isdigit_comp_upper: "isdigit \<circ> upper_char = isdigit"
  and not_isdigit_comp_upper: "(\<lambda>c. \<not> isdigit c) \<circ> upper_char = (\<lambda>c. \<not> isdigit c)"
  by (simp_all add: fun_eq_iff)

lemma py_split_upper: "py_split (py_upper s) = map py_upper (py_split s)"
proof (induction s rule: py_split.induct)
  case (1 s)
  let ?s' = "dropWhile isspace s"
  let ?P = "\<lambda>c. \<not> isspace c"
  have d: "dropWhile isspace (py_upper s) = py_upper ?s'"
    by (simp add: py_upper_def dropWhile_map isspace_comp_upper)
  show ?case
  proof (cases "?s' = []")
    case True
    then have "dropWhile isspace (py_upper s) = []"
      unfolding d by (simp add: py_upper_def)
    with True show ?thesis
      by (simp only: py_split_empty list.map)
  next
    case False
    then have ne: "dropWhile isspace (py_upper s) \<noteq> []"
      unfolding d by (simp add: py_upper_def)
    have "py_split (py_upper s) =
        takeWhile ?P (py_upper ?s') # py_split (dropWhile ?P (py_upper ?s'))"
      using py_split_step [OF ne] by (simp only: d)
    also have "takeWhile ?P (py_upper ?s') = py_upper (takeWhile ?P ?s')"
      by (simp add: py_upper_def takeWhile_map not_isspace_comp_upper)
    also have "dropWhile ?P (py_upper ?s') = py_upper (dropWhile ?P ?s')"
      by (simp add: py_upper_def dropWhile_map not_isspace_comp_upper)
    also have "py_split (py_upper (dropWhile ?P ?s')) = map py_upper (py_split (dropWhile ?P ?s'))"
      using "1.IH" [OF refl False] .
    finally show ?thesis
      using py_split_step [OF False] by simp
  qed
qed

lemma py_split_normalized:
  "py_split (py_upper (py_strip s)) = map py_upper (py_split s)"
  by (simp add: py_split_upper py_split_strip)

lemma re_search_digits_upper: "re_search_digits (py_upper t) = re_search_digits t"
proof -
  let ?d = "dropWhile (\<lambda>c. \<not> isdigit c) t"
  have "dropWhile (\<lambda>c. \<not> isdigit c) (py_upper t) = py_upper ?d"
    by (simp add: py_upper_def dropWhile_map not_isdigit_comp_upper)
  moreover have "takeWhile isdigit (py_upper ?d) = py_upper (takeWhile isdigit ?d)"
    by (simp add: py_upper_def takeWhile_map isdigit_comp_upper)
  moreover have "py_upper (takeWhile isdigit ?d) = takeWhile isdigit ?d"
    unfolding py_upper_def
    by (rule map_idI) (auto dest: set_takeWhileD simp: upper_char_digit)
  ultimately show ?thesis
    by (simp add: re_search_digits_def Let_def py_upper_def)
qed

lemma no_digit_upper:
  "list_all (\<lambda>c. \<not> isdigit c) (py_upper t) \<longleftrightarrow> list_all (\<lambda>c. \<not> isdigit c) t"
  by (simp add: py_upper_def list_all_iff)

lemma set_py_strip: "set (py_strip s) \<subseteq> set s"
  by (auto simp: py_strip_def dest!: set_dropWhileD)

subsection \<open>Facts about \<open>extract_number\<close>\<close>

lemma isdigit_not_space_char: "isdigit c \<Longrightarrow> c \<noteq> CHR '' ''"
  by (auto simp: isdigit_def)

lemma extract_number_str:
  "extract_number (PyStr s) =
     (let id_str = py_upper (py_strip s) in
      if id_str = [] \<or> py_isalpha (remove_spaces id_str) then Inr 0
      else case scan_parts (py_split id_str) of
             Some r \<Rightarrow> r
           | None \<Rightarrow> fallback_scan id_str)"
  by (simp add: extract_number_def)

lemma digit_blocks_guard:
  assumes "c \<in> set id_str" "isdigit c"
  shows "\<not> (id_str = [] \<or> py_isalpha (remove_spaces id_str))"
proof -
  have "c \<in> set (remove_spaces id_str)"
    using assms by (simp add: remove_spaces_def isdigit_not_space_char)
  then have "\<not> py_isalpha (remove_spaces id_str)"
    using assms(2) by (auto simp: py_isalpha_def list_all_iff dest: isdigit_not_isalpha)
  with assms(1) show ?thesis by auto
qed

lemma extract_number_scan:
  assumes "scan_parts (py_split (py_upper (py_strip s))) = Some r"
  shows "extract_number (PyStr s) = r"
proof -
  let ?id = "py_upper (py_strip s)"
  have "\<not> list_all (\<lambda>c. \<not> isdigit c) ?id"
    using assms scan_parts_no_digit [of ?id] by auto
  then obtain c where "c \<in> set ?id" "isdigit c"
    by (auto simp: list_all_iff)
  then have "\<not> (?id = [] \<or> py_isalpha (remove_spaces ?id))"
    by (rule digit_blocks_guard)
  then show ?thesis
    using assms by (simp add: extract_number_str Let_def)
qed

lemma extract_number_no_scan:
  assumes "scan_parts (py_split (py_upper (py_strip s))) = None"
  shows "extract_number (PyStr s) = Inr 0"
  using assms fallback_unreachable [OF assms]
  by (simp add: extract_number_str Let_def)

lemma extract_number_no_digit:
  assumes "list_all (\<lambda>c. \<not> isdigit c) s"
  shows "extract_number (PyStr s) = Inr 0"
proof -
  have "list_all (\<lambda>c. \<not> isdigit c) (py_strip s)"
    using assms set_py_strip [of s] by (auto simp: list_all_iff)
  then have "list_all (\<lambda>c. \<not> isdigit c) (py_upper (py_strip s))"
    by (simp add: no_digit_upper)
  then show ?thesis
    by (intro extract_number_no_scan scan_parts_no_digit)
qed

subsection \<open>The first digit run of the whole string\<close>

text \<open>A digit run never crosses whitespace, so the first token with a digit holds
  the first digit run of the string, and \<open>extract_number\<close> is \<open>int\<close> of that run.\<close>

lemma dropWhile_dropWhile_weaker:
  "(\<And>x. P x \<Longrightarrow> Q x) \<Longrightarrow> dropWhile Q (dropWhile P xs) = dropWhile Q xs"
  by (induction xs) auto

lemma takeWhile_dropWhile_append: "takeWhile P xs @ dropWhile P xs @ ys = xs @ ys"
  by (simp flip: append_assoc)

lemma re_search_digits_leading: "re_search_digits (dropWhile isspace s) = re_search_digits s"
proof -
  have "dropWhile (\<lambda>c. \<not> isdigit c) (dropWhile isspace s) = dropWhile (\<lambda>c. \<not> isdigit c) s"
    by (rule dropWhile_dropWhile_weaker) (auto dest: isdigit_not_isspace)
  then show ?thesis
    by (simp add: re_search_digits_def)
qed

lemma re_search_digits_append_None:
  assumes "re_search_digits t = None"
  shows "re_search_digits (t @ rest) = re_search_digits rest"
proof -
  have "\<forall>c \<in> set t. \<not> isdigit c"
    using assms by (simp add: re_search_digits_None_iff list_all_iff)
  then have "dropWhile (\<lambda>c. \<not> isdigit c) (t @ rest) = dropWhile (\<lambda>c. \<not> isdigit c) rest"
    by (simp add: dropWhile_append2)
  then show ?thesis
    by (simp add: re_search_digits_def)
qed

lemma re_search_digits_append_Some:
  assumes "re_search_digits t = Some m" and "rest = [] \<or> \<not> isdigit (hd rest)"
  shows "re_search_digits (t @ rest) = Some m"
proof -
  let ?pre = "takeWhile (\<lambda>c. \<not> isdigit c) t"
  let ?d = "dropWhile (\<lambda>c. \<not> isdigit c) t"
  let ?post = "dropWhile isdigit ?d"
  have m: "takeWhile isdigit ?d = m"
    using assms(1) by (simp add: re_search_digits_def Let_def split: if_splits)
  have m_ok: "m \<noteq> []" "list_all isdigit m"
    using re_search_digits_Some [OF assms(1)] by simp_all
  have pre: "list_all (\<lambda>c. \<not> isdigit c) ?pre"
    unfolding list_all_iff using set_takeWhileD by fastforce
  have post: "?post @ rest = [] \<or> \<not> isdigit (hd (?post @ rest))"
  proof (cases "?post = []")
    case True
    show ?thesis
      unfolding True append_Nil by (rule assms(2))
  next
    case False
    then have nd: "\<not> isdigit (hd ?post)"
      by (rule hd_dropWhile)
    have "hd (?post @ rest) = hd ?post"
      using False by (rule hd_append2)
    then have "\<not> isdigit (hd (?post @ rest))"
      using nd by simp
    then show ?thesis
      by (rule disjI2)
  qed
  have found: "re_search_digits (?pre @ m @ (?post @ rest)) = Some m"
    using pre m_ok post by (rule re_search_digits_decomp)
  have "?pre @ m @ (?post @ rest) = t @ rest"
  proof -
    have "m @ ?post @ rest = ?d @ rest"
      unfolding m [symmetric] by (rule takeWhile_dropWhile_append)
    then show ?thesis
      by (simp only: takeWhile_dropWhile_append)
  qed
  with found show ?thesis
    by (simp only:)
qed

lemma scan_parts_split_search:
  "scan_parts (py_split s) = map_option int_of_run (re_search_digits s)"
proof (induction s rule: py_split.induct)
  case (1 s)
  let ?s' = "dropWhile isspace s"
  let ?t = "takeWhile (\<lambda>c. \<not> isspace c) ?s'"
  let ?rest = "dropWhile (\<lambda>c. \<not> isspace c) ?s'"
  have lead: "re_search_digits s = re_search_digits ?s'"
    by (rule re_search_digits_leading [symmetric])
  show ?case
  proof (cases "?s' = []")
    case True
    then have "py_split s = []"
      by (rule py_split_empty)
    moreover have "re_search_digits s = None"
      unfolding lead True by (simp add: re_search_digits_def)
    ultimately show ?thesis by simp
  next
    case False
    have split: "py_split s = ?t # py_split ?rest"
      using False by (rule py_split_step)
    have IH: "scan_parts (py_split ?rest) = map_option int_of_run (re_search_digits ?rest)"
      using "1.IH" [OF refl False] .
    have whole: "?s' = ?t @ ?rest"
      by simp
    have rest: "?rest = [] \<or> \<not> isdigit (hd ?rest)"
    proof (cases "?rest = []")
      case True
      then show ?thesis by simp
    next
      case False
      then have "isspace (hd ?rest)"
        using hd_dropWhile [of "\<lambda>c. \<not> isspace c" ?s'] by blast
      then show ?thesis
        using isdigit_not_isspace by blast
    qed
    show ?thesis
    proof (cases "re_search_digits ?t")
      case None
      then have "re_search_digits (?t @ ?rest) = re_search_digits ?rest"
        by (rule re_search_digits_append_None)
      then have "re_search_digits s = re_search_digits ?rest"
        unfolding lead by (simp only: whole [symmetric])
      with None IH show ?thesis
        by (simp add: split)
    next
      case (Some m)
      then have "re_search_digits (?t @ ?rest) = Some m"
        using rest by (rule re_search_digits_append_Some)
      then have "re_search_digits s = Some m"
        unfolding lead by (simp only: whole [symmetric])
      with Some show ?thesis
        by (simp add: split)
    qed
  qed
qed

lemma scan_parts_upper: "scan_parts (map py_upper ts) = scan_parts ts"
  by (induction ts) (simp_all add: re_search_digits_upper split: option.splits)

lemma extract_number_first_run:
  "extract_number (PyStr s) =
     (case re_search_digits s of None \<Rightarrow> Inr 0 | Some m \<Rightarrow> int_of_run m)"
proof -
  have scan: "scan_parts (py_split (py_upper (py_strip s)))
      = map_option int_of_run (re_search_digits s)"
    by (simp add: py_split_normalized scan_parts_upper scan_parts_split_search)
  show ?thesis
  proof (cases "re_search_digits s")
    case None
    with scan have "scan_parts (py_split (py_upper (py_strip s))) = None"
      by simp
    then show ?thesis
      by (simp add: None extract_number_no_scan)
  next
    case (Some m)
    with scan have "scan_parts (py_split (py_upper (py_strip s))) = Some (int_of_run m)"
      by simp
    then show ?thesis
      by (simp add: Some extract_number_scan)
  qed
qed

lemma extract_number_raises_iff:
  "(extract_number (PyStr s) = Inl ValueError)
     = (\<exists>m. re_search_digits s = Some m \<and> int_max_str_digits < length (lstrip_zeros m))"
proof (cases "re_search_digits s")
  case None
  then show ?thesis
    by (simp add: extract_number_first_run)
next
  case (Some m)
  then have "list_all isdigit m"
    by (simp add: re_search_digits_Some)
  then show ?thesis
    by (simp add: extract_number_first_run Some int_of_run_digits)
qed

lemma extract_number_cases:
  "extract_number v = Inl ValueError \<or> (\<exists>n. extract_number v = Inr n \<and> 0 \<le> n)"
proof (cases v)
  case (PyStr s)
  show ?thesis
  proof (cases "re_search_digits s")
    case None
    then show ?thesis
      by (simp add: PyStr extract_number_first_run)
  next
    case (Some m)
    then have "list_all isdigit m"
      by (simp add: re_search_digits_Some)
    then show ?thesis
      by (simp add: PyStr extract_number_first_run Some int_of_run_digits decimal_value_nonneg)
  qed
qed (simp_all add: extract_number_def)

subsection \<open>Facts about the pipeline\<close>

lemma extract_number_number_of:
  assumes "extract_number (PyStr ident) \<noteq> Inl ValueError"
  shows "extract_number (PyStr ident) = Inr (number_of ident)"
proof -
  obtain n where "extract_number (PyStr ident) = Inr n"
    using extract_number_cases [of "PyStr ident"] assms by (elim disjE exE conjE) simp_all
  then show ?thesis
    by (simp add: number_of_def)
qed

lemma number_of_Inr: "extract_number (PyStr ident) = Inr n \<Longrightarrow> number_of ident = n"
  by (simp add: number_of_def)

lemma series_apply_Inr:
  "(\<And>x. x \<in> set xs \<Longrightarrow> f x = Inr (g x)) \<Longrightarrow> series_apply f xs = Inr (map g xs)"
  by (induction xs) simp_all

lemma series_apply_Inl:
  assumes "\<exists>x \<in> set xs. f x = Inl e"
    and "\<And>x. x \<in> set xs \<Longrightarrow> f x = Inl e \<or> (\<exists>y. f x = Inr y)"
  shows "series_apply f xs = Inl e"
  using assms
proof (induction xs)
  case Nil
  then show ?case by simp
next
  case (Cons x xs)
  from Cons.prems(2) [of x] have "f x = Inl e \<or> (\<exists>y. f x = Inr y)"
    by simp
  then show ?case
  proof
    assume "f x = Inl e"
    then show ?thesis by simp
  next
    assume "\<exists>y. f x = Inr y"
    then obtain y where y: "f x = Inr y" ..
    with Cons.prems(1) have "\<exists>x \<in> set xs. f x = Inl e"
      by auto
    then have "series_apply f xs = Inl e"
      using Cons.prems(2) by (intro Cons.IH) simp_all
    with y show ?thesis by simp
  qed
qed

lemma map2_add_columns:
  "map2 add_columns df0 (map (number_of \<circ> ID) df0) = map keyed df0"
  by (induction df0) (simp_all add: keyed_def)

lemma number_keyed [simp]: "number (keyed r) = number_of (ID r)"
  and raw_of_keyed [simp]: "raw_of (keyed r) = r"
  and formatted_keyed: "formatted_ID (keyed r) = format_id (ID r) (number_of (ID r))"
  by (simp_all add: keyed_def add_columns_def raw_of_def)

subsection \<open>Sorting\<close>

lemma argsort_ok_set:
  "argsort_ok argsort \<Longrightarrow> set (argsort ks) = {0..<length ks}"
  by (metis argsort_ok_def set_mset_mset set_upt)

lemma argsort_ok_length:
  "argsort_ok argsort \<Longrightarrow> length (argsort ks) = length ks"
  by (metis argsort_ok_def size_mset length_upt diff_zero)

lemma sort_values_mset:
  assumes "argsort_ok argsort"
  shows "mset (sort_values argsort df) = mset df"
proof -
  let ?p = "argsort (map number df)"
  have "mset ?p = mset [0..<length df]"
    using assms by (simp add: argsort_ok_def)
  then have "image_mset (\<lambda>i. df ! i) (mset ?p) = image_mset (\<lambda>i. df ! i) (mset [0..<length df])"
    by simp
  then have "mset (map (\<lambda>i. df ! i) ?p) = mset (map (\<lambda>i. df ! i) [0..<length df])"
    by simp
  then show ?thesis
    by (simp add: sort_values_def map_nth)
qed

lemma sort_values_sorted:
  assumes "argsort_ok argsort"
  shows "sorted (map number (sort_values argsort df))"
proof -
  let ?ks = "map number df"
  let ?p = "argsort ?ks"
  have "sorted (map (\<lambda>i. ?ks ! i) ?p)"
    using assms by (simp add: argsort_ok_def)
  moreover have "map (\<lambda>i. ?ks ! i) ?p = map number (sort_values argsort df)"
    using argsort_ok_set [OF assms, of ?ks] by (auto simp: sort_values_def)
  ultimately show ?thesis by simp
qed

lemma sort_values_length:
  "argsort_ok argsort \<Longrightarrow> length (sort_values argsort df) = length df"
  by (simp add: sort_values_def argsort_ok_length)

lemma sort_values_set:
  "argsort_ok argsort \<Longrightarrow> set (sort_values argsort df) = set df"
  by (metis sort_values_mset set_mset_mset)

lemma stable_argsort_ok: "argsort_ok stable_argsort"
  by (simp add: argsort_ok_def stable_argsort_def)

text \<open>With a routine that keeps equal keys in their order, the rows of each key
  come out in the order they went in. For another routine that meets \<open>argsort_ok\<close>
  nothing of the kind follows.\<close>

lemma sort_values_stable_argsort:
  "filter (\<lambda>r. number r = k) (sort_values stable_argsort df) = filter (\<lambda>r. number r = k) df"
proof -
  let ?ks = "map number df"
  let ?n = "length df"
  let ?p = "sort_key (\<lambda>i. ?ks ! i) [0..<?n]"
  have in_range: "\<forall>i \<in> set ?p. i < ?n"
    by simp
  have "filter (\<lambda>r. number r = k) (sort_values stable_argsort df)
      = map (\<lambda>i. df ! i) (filter (\<lambda>i. number (df ! i) = k) ?p)"
    by (simp add: sort_values_def stable_argsort_def filter_map comp_def)
  also have "filter (\<lambda>i. number (df ! i) = k) ?p = filter (\<lambda>i. ?ks ! i = k) ?p"
    using in_range by (intro filter_cong refl) simp
  also have "\<dots> = filter (\<lambda>i. ?ks ! i = k) [0..<?n]"
    by (rule sort_key_stable)
  also have "\<dots> = filter (\<lambda>i. number (df ! i) = k) [0..<?n]"
    by (intro filter_cong refl) simp
  also have "map (\<lambda>i. df ! i) (filter (\<lambda>i. number (df ! i) = k) [0..<?n])
      = filter (\<lambda>r. number r = k) (map (\<lambda>i. df ! i) [0..<?n])"
    by (simp add: filter_map comp_def)
  finally show ?thesis
    by (simp add: map_nth)
qed

subsection \<open>Duplicates\<close>

lemma select_rows_map: "select_rows xs (map P xs) = filter P xs"
  by (induction xs) (simp_all add: select_rows_def)

lemma set_unique_from: "set (unique_from seen xs) = set xs - set seen"
  by (induction xs arbitrary: seen) auto

lemma distinct_unique_from: "distinct (unique_from seen xs)"
  by (induction xs arbitrary: seen) (auto simp: set_unique_from)

lemma sorted_unique_from:
  fixes xs :: "int list"
  shows "sorted xs \<Longrightarrow> sorted (unique_from seen xs)"
  by (induction xs arbitrary: seen) (auto simp: set_unique_from)

lemma count_list_map_filter:
  "count_list (map f xs) k = length (filter (\<lambda>x. f x = k) xs)"
  by (induction xs) simp_all

lemma count_list_mset_cong:
  "mset xs = mset ys \<Longrightarrow> count_list xs k = count_list ys k"
  by (metis count_mset)

lemma count_list_pos_mem: "2 \<le> count_list xs k \<Longrightarrow> k \<in> set xs"
  by (metis count_list_0_iff not_numeral_le_zero)

subsection \<open>Decimal text\<close>

lemma digits_of_small: "n < 10 \<Longrightarrow> digits_of n = [digit_char n]"
  by (subst digits_of.simps) simp

lemma digits_of_large:
  "\<not> n < 10 \<Longrightarrow> digits_of n = digits_of (n div 10) @ [digit_char (n mod 10)]"
  by (subst digits_of.simps) simp

lemma digits_of_digits: "list_all isdigit (digits_of n)"
proof (induction n rule: digits_of.induct)
  case (1 n)
  show ?case
  proof (cases "n < 10")
    case True
    then show ?thesis by (simp add: digits_of_small isdigit_digit_char)
  next
    case False
    then show ?thesis
      using "1.IH" by (simp add: digits_of_large isdigit_digit_char)
  qed
qed

lemma digits_of_not_Nil: "digits_of n \<noteq> []"
  by (cases "n < 10") (simp_all add: digits_of_small digits_of_large)

lemma decimal_value_digits_of: "decimal_value (digits_of n) = int n"
proof (induction n rule: digits_of.induct)
  case (1 n)
  show ?case
  proof (cases "n < 10")
    case True
    then show ?thesis
      using decimal_value_snoc [of "[]" "digit_char n"]
      by (simp add: digits_of_small digit_val_digit_char)
  next
    case False
    have "int (10 * (n div 10) + n mod 10) = int n"
      by simp
    then have "10 * int (n div 10) + int (n mod 10) = int n"
      by (simp only: of_nat_add of_nat_mult of_nat_numeral)
    then show ?thesis
      using "1.IH" False by (simp add: digits_of_large decimal_value_snoc digit_val_digit_char)
  qed
qed

lemma hd_digits_of: "0 < n \<Longrightarrow> hd (digits_of n) \<noteq> CHR ''0''"
proof (induction n rule: digits_of.induct)
  case (1 n)
  show ?case
  proof (cases "n < 10")
    case True
    then show ?thesis
      using "1.prems" by (simp add: digits_of_small digit_char_zero)
  next
    case False
    then have "0 < n div 10" by simp
    then show ?thesis
      using "1.IH" False by (simp add: digits_of_large digits_of_not_Nil)
  qed
qed

lemma py_str_pos: "0 < n \<Longrightarrow> py_str n = digits_of (nat n)"
  by (simp add: py_str_def)

lemma py_split_single:
  assumes "s \<noteq> []" "\<forall>c \<in> set s. \<not> isspace c"
  shows "py_split s = [s]"
proof -
  have d: "dropWhile isspace s = s"
    using assms by (cases s) simp_all
  have "takeWhile (\<lambda>c. \<not> isspace c) s = s" "dropWhile (\<lambda>c. \<not> isspace c) s = []"
    using assms(2) by simp_all
  moreover have "py_split [] = []"
    by (rule py_split_empty) simp
  moreover have "py_split s = takeWhile (\<lambda>c. \<not> isspace c) s # py_split (dropWhile (\<lambda>c. \<not> isspace c) s)"
    using py_split_step [of s] assms(1) unfolding d by blast
  ultimately show ?thesis
    by (simp only:)
qed


lemma digit_val_less: "isdigit c \<Longrightarrow> digit_val c < 10"
  by (auto simp: isdigit_def digit_val_def Let_def)

lemma digit_char_digit_val: "isdigit c \<Longrightarrow> digit_char (digit_val c) = c"
  by (simp add: isdigit_def digit_val_def digit_char_def Let_def)

lemma digit_val_pos: "isdigit c \<Longrightarrow> c \<noteq> CHR ''0'' \<Longrightarrow> 0 < digit_val c"
proof -
  assume c: "isdigit c" "c \<noteq> CHR ''0''"
  have "(of_char c :: nat) \<noteq> of_char CHR ''0''"
    using c(2) by (metis of_char_eq_iff)
  then show ?thesis
    using c(1) by (simp add: isdigit_def digit_val_def Let_def)
qed

lemma decimal_value_pos:
  "t \<noteq> [] \<Longrightarrow> list_all isdigit t \<Longrightarrow> hd t \<noteq> CHR ''0'' \<Longrightarrow> 0 < decimal_value t"
proof (induction t rule: rev_induct)
  case Nil
  then show ?case by simp
next
  case (snoc c xs)
  show ?case
  proof (cases "xs = []")
    case True
    then have "0 < digit_val c"
      using snoc.prems by (simp add: digit_val_pos)
    then show ?thesis
      using True decimal_value_snoc [of "[]" c] by simp
  next
    case False
    then have "0 < decimal_value xs"
      using snoc by simp
    then show ?thesis
      by (simp add: decimal_value_snoc)
  qed
qed

lemma digits_of_decimal_value:
  "t \<noteq> [] \<Longrightarrow> list_all isdigit t \<Longrightarrow> hd t \<noteq> CHR ''0'' \<Longrightarrow>
   digits_of (nat (decimal_value t)) = t"
proof (induction t rule: rev_induct)
  case Nil
  then show ?case by simp
next
  case (snoc c xs)
  have c: "isdigit c"
    using snoc.prems(2) by simp
  let ?v = "digit_val c"
  have v: "?v < 10"
    using c by (rule digit_val_less)
  show ?case
  proof (cases "xs = []")
    case True
    then have "nat (decimal_value (xs @ [c])) = ?v"
      using decimal_value_snoc [of "[]" c] by simp
    then show ?thesis
      using True v c by (simp add: digits_of_small digit_char_digit_val)
  next
    case False
    then have xs: "list_all isdigit xs" "hd xs \<noteq> CHR ''0''"
      using snoc.prems by simp_all
    have IH: "digits_of (nat (decimal_value xs)) = xs"
      using False xs by (rule snoc.IH)
    let ?a = "nat (decimal_value xs)"
    have a: "0 < ?a"
      using decimal_value_pos [OF False xs] by simp
    have n: "nat (decimal_value (xs @ [c])) = 10 * ?a + ?v"
      using decimal_value_nonneg [of xs] by (simp add: decimal_value_snoc nat_add_distrib nat_mult_distrib)
    have "\<not> 10 * ?a + ?v < 10"
      using a by simp
    then have "digits_of (10 * ?a + ?v)
        = digits_of ((10 * ?a + ?v) div 10) @ [digit_char ((10 * ?a + ?v) mod 10)]"
      by (rule digits_of_large)
    also have "(10 * ?a + ?v) div 10 = ?a"
      using v by simp
    also have "(10 * ?a + ?v) mod 10 = ?v"
      using v by simp
    finally show ?thesis
      using c by (simp add: n IH digit_char_digit_val)
  qed
qed

text \<open>A positive key that \<open>extract_number\<close> has returned is the value of a run that
  \<open>int\<close> accepted, so its decimal text is that run without its leading zeros and has
  at most 4300 digits.\<close>

lemma returned_key_digits:
  assumes "extract_number (PyStr s) = Inr n" and "0 < n"
  shows "length (py_str n) \<le> int_max_str_digits"
proof (cases "re_search_digits s")
  case None
  with assms show ?thesis
    by (simp add: extract_number_first_run)
next
  case (Some m)
  let ?t = "lstrip_zeros m"
  have m: "list_all isdigit m"
    using Some by (simp add: re_search_digits_Some)
  have run: "int_of_run m = Inr n"
    using assms(1) by (simp add: extract_number_first_run Some)
  have within: "length ?t \<le> int_max_str_digits"
    using run int_of_run_digits [OF m] by (simp split: if_splits)
  then have n: "n = decimal_value ?t"
    using run m by (simp add: int_of_run_within decimal_value_lstrip_zeros)
  have t_ne: "?t \<noteq> []"
    using n assms(2) by auto
  then have t_hd: "hd ?t \<noteq> CHR ''0''"
    unfolding lstrip_zeros_def by (rule hd_dropWhile)
  have "digits_of (nat (decimal_value ?t)) = ?t"
    using t_ne list_all_lstrip_zeros [OF m] t_hd by (rule digits_of_decimal_value)
  then have "py_str n = ?t"
    using assms(2) n by (simp add: py_str_pos)
  with within show ?thesis
    by simp
qed

lemma extract_number_display:
  assumes "0 < n" and "length (py_str n) \<le> int_max_str_digits"
  shows "extract_number (PyStr (CHR ''P'' # py_str n)) = Inr n"
proof -
  let ?ds = "digits_of (nat n)"
  let ?s = "CHR ''P'' # ?ds"
  have ds: "list_all isdigit ?ds" "?ds \<noteq> []"
    by (rule digits_of_digits, rule digits_of_not_Nil)
  have "\<not> isdigit CHR ''P''"
    by (simp add: isdigit_def)
  then have "re_search_digits ([CHR ''P''] @ ?ds @ []) = Some ?ds"
    using ds by (intro re_search_digits_decomp) simp_all
  then have "extract_number (PyStr ?s) = int_of_run ?ds"
    by (simp add: extract_number_first_run)
  moreover have "lstrip_zeros ?ds = ?ds"
  proof -
    have "hd ?ds \<noteq> CHR ''0''"
      using assms(1) by (intro hd_digits_of) simp
    then show ?thesis
      using ds(2) by (cases ?ds) (simp_all add: lstrip_zeros_def)
  qed
  then have "int_of_run ?ds = Inr (decimal_value ?ds)"
    using ds(1) assms by (intro int_of_run_within) (simp_all add: py_str_pos)
  ultimately show ?thesis
    using assms(1) by (simp add: py_str_pos decimal_value_digits_of)
qed

subsection \<open>The pipeline\<close>

lemma process_kml_file_returns:
  fixes argsort :: "int list \<Rightarrow> nat list" and recs :: "'f raw_record list"
  assumes "recs \<noteq> []"
    and ok: "\<forall>r \<in> set recs. extract_number (PyStr (ID r)) \<noteq> Inl ValueError"
  defines "df \<equiv> sort_values argsort (map keyed recs)"
  defines "dups \<equiv> filter (\<lambda>num. 0 < num)
      (unique (filter (\<lambda>k. 2 \<le> count_list (map number df) k) (map number df)))"
  shows "process_kml_file argsort recs =
    Inr (df, \<lparr>total_poles = length df, duplicate_numbers = dups,
              duplicate_count = length dups, sample_data = take 10 df\<rparr>)"
proof -
  have a: "series_apply (\<lambda>ident. extract_number (PyStr ident)) (map ID recs)
      = Inr (map number_of (map ID recs))"
    using ok by (intro series_apply_Inr extract_number_number_of) auto
  have b: "map number (select_rows df (duplicated (map number df)))
      = filter (\<lambda>k. 2 \<le> count_list (map number df) k) (map number df)"
  proof -
    have "duplicated (map number df) = map (\<lambda>r. 2 \<le> count_list (map number df) (number r)) df"
      by (simp add: duplicated_def)
    then show ?thesis
      by (simp add: select_rows_map filter_map comp_def)
  qed
  show ?thesis
    using assms(1) b
    by (simp add: process_kml_file_def a map2_add_columns Let_def df_def dups_def)
qed

lemma process_kml_file_raises:
  assumes "recs \<noteq> []"
    and "\<exists>r \<in> set recs. extract_number (PyStr (ID r)) = Inl ValueError"
  shows "process_kml_file argsort recs = Inl ValueError"
proof -
  have "series_apply (\<lambda>ident. extract_number (PyStr ident)) (map ID recs) = Inl ValueError"
  proof (rule series_apply_Inl)
    show "\<exists>x \<in> set (map ID recs). extract_number (PyStr x) = Inl ValueError"
      using assms(2) by auto
  next
    fix x
    show "extract_number (PyStr x) = Inl ValueError \<or> (\<exists>y. extract_number (PyStr x) = Inr y)"
      using extract_number_cases [of "PyStr x"] by blast
  qed
  then show ?thesis
    using assms(1) by (simp add: process_kml_file_def)
qed

lemma process_kml_file_Inr_D:
  assumes "process_kml_file argsort recs = Inr (df, res)"
  shows "recs \<noteq> []"
    and "\<forall>r \<in> set recs. extract_number (PyStr (ID r)) \<noteq> Inl ValueError"
proof -
  show ne: "recs \<noteq> []"
    using assms by (auto simp: process_kml_file_def)
  show "\<forall>r \<in> set recs. extract_number (PyStr (ID r)) \<noteq> Inl ValueError"
  proof (rule ccontr)
    assume "\<not> (\<forall>r \<in> set recs. extract_number (PyStr (ID r)) \<noteq> Inl ValueError)"
    then have "\<exists>r \<in> set recs. extract_number (PyStr (ID r)) = Inl ValueError"
      by simp
    then have "process_kml_file argsort recs = Inl ValueError"
      using ne by (intro process_kml_file_raises)
    with assms show False by simp
  qed
qed

section \<open>The claims\<close>

text \<open>
  Claim C1, as the code has it. Take a string whose whitespace-separated tokens are
  \<open>before\<close>, then \<open>t\<close>, then \<open>after\<close>, where no token of \<open>before\<close> has a digit
  and \<open>t\<close> has one: \<open>t\<close> is \<open>pre\<close> without a digit, then the digit run \<open>run\<close>, then
  \<open>post\<close>, which is empty or starts with a character that is not a digit. If \<open>run\<close>
  without its leading zeros has at most 4300 digits, \<open>extract_number\<close> returns its
  value, and 0 when \<open>run\<close> is all zeros; if it has more, \<open>int\<close> raises
  \<open>ValueError\<close>. Neither \<open>after\<close> nor \<open>post\<close> has any influence on the outcome.
\<close>

theorem first_token_run_value:
  assumes "py_split s = before @ t # after"
    and "list_all (\<lambda>p. list_all (\<lambda>c. \<not> isdigit c) p) before"
    and "t = pre @ run @ post"
    and "list_all (\<lambda>c. \<not> isdigit c) pre"
    and "run \<noteq> []" and "list_all isdigit run"
    and "post = [] \<or> \<not> isdigit (hd post)"
  shows "extract_number (PyStr s) =
           (if int_max_str_digits < length (lstrip_zeros run) then Inl ValueError
            else Inr (if list_all (\<lambda>c. c = CHR ''0'') run then 0
                      else decimal_value (lstrip_zeros run)))"
proof -
  have run: "re_search_digits t = Some run"
    unfolding assms(3) using assms(4-7) by (rule re_search_digits_decomp)
  have "py_split (py_upper (py_strip s)) =
      map py_upper before @ py_upper t # map py_upper after"
    by (simp add: py_split_normalized assms(1))
  moreover have "list_all (\<lambda>p. list_all (\<lambda>c. \<not> isdigit c) p) (map py_upper before)"
    using assms(2) by (simp add: list_all_iff no_digit_upper [unfolded list_all_iff])
  moreover have "re_search_digits (py_upper t) = Some run"
    by (simp add: re_search_digits_upper run)
  ultimately have "scan_parts (py_split (py_upper (py_strip s))) = Some (int_of_run run)"
    by (simp add: scan_parts_first)
  then have "extract_number (PyStr s) = int_of_run run"
    by (rule extract_number_scan)
  also have "\<dots> = (if int_max_str_digits < length (lstrip_zeros run) then Inl ValueError
      else Inr (decimal_value run))"
    using assms(6) by (rule int_of_run_digits)
  finally show ?thesis
    by (simp add: all_zeros_value decimal_value_lstrip_zeros)
qed

theorem first_token_run_value_witness:
  "py_split ''POLE-12 SPARE9'' = [] @ ''POLE-12'' # [''SPARE9'']
   \<and> extract_number (PyStr ''POLE-12 SPARE9'') = Inr 12
   \<and> extract_number (PyStr ''POLE-12 SPARE'') = Inr 12
   \<and> extract_number (PyStr ''Pole 007'') = Inr 7
   \<and> extract_number (PyStr ''0000'') = Inr 0"
proof -
  have d: "py_split ''POLE-12 SPARE'' = [] @ ''POLE-12'' # [''SPARE'']"
    by code_simp
  have a: "py_split ''POLE-12 SPARE9'' = [] @ ''POLE-12'' # [''SPARE9'']"
    by code_simp
  have b: "py_split ''Pole 007'' = [''Pole''] @ ''007'' # []"
    by code_simp
  have c: "py_split ''0000'' = [] @ ''0000'' # []"
    by code_simp
  have "extract_number (PyStr ''POLE-12 SPARE9'') = Inr 12"
    using first_token_run_value [OF a, of "''POLE-''" "''12''" "[]"]
    by (simp add: isdigit_def lstrip_zeros_def decimal_value_def digit_val_def
        int_max_str_digits_def)
  moreover have "extract_number (PyStr ''POLE-12 SPARE'') = Inr 12"
    using first_token_run_value [OF d, of "''POLE-''" "''12''" "[]"]
    by (simp add: isdigit_def lstrip_zeros_def decimal_value_def digit_val_def
        int_max_str_digits_def)
  moreover have "extract_number (PyStr ''Pole 007'') = Inr 7"
    using first_token_run_value [OF b, of "[]" "''007''" "[]"]
    by (simp add: isdigit_def lstrip_zeros_def decimal_value_def digit_val_def
        int_max_str_digits_def)
  moreover have "extract_number (PyStr ''0000'') = Inr 0"
    using first_token_run_value [OF c, of "[]" "''0000''" "[]"]
    by (simp add: isdigit_def lstrip_zeros_def int_max_str_digits_def)
  ultimately show ?thesis using a by simp
qed

text \<open>The claim as the specification words it promises the value of the run for
  every such string. A label that is one run of 4301 sevens is its own and only token,
  and on it \<open>int\<close> raises.\<close>

theorem first_token_run_counterexample:
  "py_split (replicate 4301 CHR ''7'') = [] @ replicate 4301 CHR ''7'' # []
   \<and> replicate 4301 CHR ''7'' \<noteq> []
   \<and> list_all isdigit (replicate 4301 CHR ''7'')
   \<and> extract_number (PyStr (replicate 4301 CHR ''7'')) = Inl ValueError"
proof -
  let ?run = "replicate 4301 CHR ''7''"
  have digits: "list_all isdigit ?run"
    by (simp add: list_all_iff isdigit_def)
  have ne: "?run \<noteq> []"
    by simp
  have "\<forall>c \<in> set ?run. \<not> isspace c"
    by (simp add: isspace_def)
  with ne have split: "py_split ?run = [?run]"
    by (rule py_split_single)
  have "re_search_digits ([] @ ?run @ []) = Some ?run"
    using ne digits by (intro re_search_digits_decomp) simp_all
  then have "extract_number (PyStr ?run) = int_of_run ?run"
    by (simp add: extract_number_first_run)
  moreover have "lstrip_zeros ?run = ?run"
    by (simp add: lstrip_zeros_def dropWhile_replicate)
  then have "int_of_run ?run = Inl ValueError"
    using digits by (intro int_of_run_beyond) (simp_all add: int_max_str_digits_def)
  ultimately show ?thesis
    using split ne digits by simp
qed

text \<open>
  Claim C5, as the code has it. \<open>extract_number\<close> ends on every value, and it
  returns an integer that is not negative unless it raises \<open>ValueError\<close>. It raises
  exactly on a string whose first digit run, its leading zeros stripped, has more than
  4300 digits: the bound of \<open>int\<close>. Every function of the model is defined with its
  termination proved.
\<close>

theorem extract_number_returns_or_raises:
  "(extract_number v = Inl ValueError \<or> (\<exists>n. extract_number v = Inr n \<and> 0 \<le> n))
   \<and> (extract_number v = Inl ValueError)
       = (\<exists>s m. v = PyStr s \<and> re_search_digits s = Some m
                \<and> int_max_str_digits < length (lstrip_zeros m))"
proof
  show "extract_number v = Inl ValueError \<or> (\<exists>n. extract_number v = Inr n \<and> 0 \<le> n)"
    by (rule extract_number_cases)
next
  show "(extract_number v = Inl ValueError)
       = (\<exists>s m. v = PyStr s \<and> re_search_digits s = Some m
                \<and> int_max_str_digits < length (lstrip_zeros m))"
  proof (cases v)
    case (PyStr s)
    then show ?thesis
      by (simp add: extract_number_raises_iff)
  qed (simp_all add: extract_number_def)
qed

theorem extract_number_returns_or_raises_witness:
  "(\<exists>n. extract_number (PyStr []) = Inr n \<and> 0 \<le> n)
   \<and> (\<exists>n. extract_number (PyStr ''  '') = Inr n \<and> 0 \<le> n)
   \<and> (\<exists>n. extract_number (PyStr ''P-007 x'') = Inr n \<and> 0 \<le> n)"
proof -
  have a: "extract_number (PyStr []) \<noteq> Inl ValueError"
    "extract_number (PyStr ''  '') \<noteq> Inl ValueError"
    "extract_number (PyStr ''P-007 x'') \<noteq> Inl ValueError"
    by code_simp+
  show ?thesis
    using extract_number_returns_or_raises [of "PyStr []"]
      extract_number_returns_or_raises [of "PyStr ''  ''"]
      extract_number_returns_or_raises [of "PyStr ''P-007 x''"] a
    by blast
qed

text \<open>The claim as the specification words it has no exception. On the text of 4301
  ones \<open>extract_number\<close> raises.\<close>

theorem extract_number_total_counterexample:
  "extract_number (PyStr (replicate 4301 CHR ''1'')) = Inl ValueError"
proof -
  let ?run = "replicate 4301 CHR ''1''"
  have digits: "list_all isdigit ?run"
    by (simp add: list_all_iff isdigit_def)
  have "re_search_digits ([] @ ?run @ []) = Some ?run"
    using digits by (intro re_search_digits_decomp) simp_all
  then have "extract_number (PyStr ?run) = int_of_run ?run"
    by (simp add: extract_number_first_run)
  moreover have "lstrip_zeros ?run = ?run"
    by (simp add: lstrip_zeros_def dropWhile_replicate)
  then have "int_of_run ?run = Inl ValueError"
    using digits by (intro int_of_run_beyond) (simp_all add: int_max_str_digits_def)
  ultimately show ?thesis
    by simp
qed

text \<open>
  Claim C7. \<open>extract_number\<close> returns 0 on a value that is missing or not a string,
  on a string that is empty once stripped, and on a string whose characters, the
  spaces removed, are all letters; the last both for the string as it comes and for
  the string stripped and upper-cased, which is the one the code tests.
\<close>

theorem extract_number_zero:
  "(isna v \<or> \<not> is_str v \<longrightarrow> extract_number v = Inr 0)
   \<and> (py_strip s = [] \<longrightarrow> extract_number (PyStr s) = Inr 0)
   \<and> (list_all isalpha_char (remove_spaces s) \<longrightarrow> extract_number (PyStr s) = Inr 0)
   \<and> (py_isalpha (remove_spaces (py_upper (py_strip s))) \<longrightarrow> extract_number (PyStr s) = Inr 0)"
proof (intro conjI impI)
  assume "isna v \<or> \<not> is_str v"
  then show "extract_number v = Inr 0"
    by (simp add: extract_number_def)
next
  assume "py_strip s = []"
  then show "extract_number (PyStr s) = Inr 0"
    by (simp add: extract_number_str py_upper_def)
next
  assume a: "list_all isalpha_char (remove_spaces s)"
  have "list_all (\<lambda>c. \<not> isdigit c) s"
    unfolding list_all_iff
  proof
    fix c assume c: "c \<in> set s"
    show "\<not> isdigit c"
    proof
      assume d: "isdigit c"
      with c have "c \<in> set (remove_spaces s)"
        by (simp add: remove_spaces_def isdigit_not_space_char)
      with a have "isalpha_char c"
        by (simp add: list_all_iff)
      with d show False
        by (simp add: isdigit_not_isalpha)
    qed
  qed
  then show "extract_number (PyStr s) = Inr 0"
    by (rule extract_number_no_digit)
next
  assume "py_isalpha (remove_spaces (py_upper (py_strip s)))"
  then show "extract_number (PyStr s) = Inr 0"
    by (simp add: extract_number_str Let_def)
qed

theorem extract_number_zero_witness:
  "extract_number PyNone = Inr 0 \<and> extract_number PyNaN = Inr 0
   \<and> extract_number (PyInt 12) = Inr 0
   \<and> extract_number (PyStr '''') = Inr 0
   \<and> extract_number (PyStr ''   '') = Inr 0
   \<and> extract_number (PyStr ''ABC'') = Inr 0
   \<and> extract_number (PyStr '' Pole  abc '') = Inr 0"
proof -
  have e: "py_strip '''' = []" "py_strip ''   '' = []"
    by code_simp+
  have a: "list_all isalpha_char (remove_spaces ''ABC'')"
    "list_all isalpha_char (remove_spaces '' Pole  abc '')"
    by code_simp+
  show ?thesis
    using extract_number_zero [of PyNone "''''"] extract_number_zero [of PyNaN "''   ''"]
      extract_number_zero [of "PyInt 12" "''ABC''"]
      extract_number_zero [of PyNone "'' Pole  abc ''"] e a
    by simp
qed

text \<open>
  Claim C10. The search of the whole string that follows the loop over the tokens
  never finds anything: every digit of a string lies in one of its tokens, so when the
  loop has found no digit \<open>re.findall\<close> returns the empty list. Hence
  \<open>extract_number\<close> equals \<open>extract_number_token_scan\<close>, the same function with that
  search removed.
\<close>

theorem fallback_scan_redundant:
  "extract_number v = extract_number_token_scan v
   \<and> (isdigit c \<and> c \<in> set s \<longrightarrow> (\<exists>t \<in> set (py_split s). c \<in> set t))
   \<and> (scan_parts (py_split s) = None \<longrightarrow> re_findall_digits s = [])"
proof (intro conjI impI)
  show "extract_number v = extract_number_token_scan v"
  proof (cases v)
    case (PyStr x)
    show ?thesis
      using fallback_unreachable [of "py_upper (py_strip x)"]
      by (simp add: PyStr extract_number_def extract_number_token_scan_def Let_def
          split: option.splits)
  qed (simp_all add: extract_number_def extract_number_token_scan_def)
next
  assume "isdigit c \<and> c \<in> set s"
  then show "\<exists>t \<in> set (py_split s). c \<in> set t"
    using py_split_covers isdigit_not_isspace by blast
next
  assume "scan_parts (py_split s) = None"
  then show "re_findall_digits s = []"
    by (simp add: re_findall_digits_no_digit scan_parts_split_None)
qed

theorem fallback_scan_redundant_witness:
  "extract_number (PyStr ''POLE#7'') = Inr 7
   \<and> extract_number_token_scan (PyStr ''POLE#7'') = Inr 7
   \<and> (\<exists>t \<in> set (py_split ''POLE#7''). CHR ''7'' \<in> set t)
   \<and> scan_parts (py_split ''#$ %'') = None \<and> re_findall_digits ''#$ %'' = []"
proof -
  have a: "extract_number_token_scan (PyStr ''POLE#7'') = Inr 7"
    by code_simp
  have b: "isdigit CHR ''7'' \<and> CHR ''7'' \<in> set ''POLE#7''"
    by code_simp
  have c: "scan_parts (py_split ''#$ %'') = None"
    by code_simp
  show ?thesis
    using fallback_scan_redundant [of "PyStr ''POLE#7''" "CHR ''7''" "''POLE#7''"]
      fallback_scan_redundant [of PyNone "CHR ''7''" "''#$ %''"] a b c
    by simp
qed

text \<open>
  Claim C4, as the code has it. \<open>process_kml_file\<close> raises its "No valid placemarks"
  error exactly when the frame of records is empty, and it never returns an empty
  frame. On a frame with a row it raises \<open>ValueError\<close> exactly when \<open>extract_number\<close>
  raises on the \<open>ID\<close> of some row; otherwise it returns a frame of as many rows and
  counts them in \<open>total_poles\<close>.
\<close>

theorem no_usable_records_error:
  assumes "argsort_ok argsort"
  shows "(process_kml_file argsort recs
            = Inl (HTTPException 400 ''No valid placemarks found in KML file'')) = (recs = [])
    \<and> (\<forall>res. process_kml_file argsort recs \<noteq> Inr ([], res))
    \<and> (recs \<noteq> [] \<longrightarrow>
          (process_kml_file argsort recs = Inl ValueError)
            = (\<exists>r \<in> set recs. extract_number (PyStr (ID r)) = Inl ValueError)
        \<and> ((\<forall>r \<in> set recs. extract_number (PyStr (ID r)) \<noteq> Inl ValueError) \<longrightarrow>
             (\<exists>df res. process_kml_file argsort recs = Inr (df, res)
                \<and> length df = length recs \<and> total_poles res = length recs)))"
proof (cases "recs = []")
  case True
  then show ?thesis
    by (simp add: process_kml_file_def)
next
  case False
  show ?thesis
  proof (cases "\<exists>r \<in> set recs. extract_number (PyStr (ID r)) = Inl ValueError")
    case True
    then have "process_kml_file argsort recs = Inl ValueError"
      using False by (intro process_kml_file_raises)
    with False True show ?thesis
      by auto
  next
    case nobody: False
    then have ok: "\<forall>r \<in> set recs. extract_number (PyStr (ID r)) \<noteq> Inl ValueError"
      by simp
    have "length (sort_values argsort (map keyed recs)) = length recs"
      using assms by (simp add: sort_values_length)
    with False nobody show ?thesis
      using process_kml_file_returns [OF False ok, of argsort] by auto
  qed
qed

theorem no_usable_records_error_witness:
  "argsort_ok stable_argsort
   \<and> process_kml_file stable_argsort ([] :: int raw_record list)
       = Inl (HTTPException 400 ''No valid placemarks found in KML file'')
   \<and> (\<exists>df res. process_kml_file stable_argsort [\<lparr>ID = ''ABC'', Latitude = 1 :: int, Longitude = 2\<rparr>]
          = Inr (df, res) \<and> length df = 1 \<and> total_poles res = 1)"
proof -
  have a: "extract_number (PyStr ''ABC'') \<noteq> Inl ValueError"
    by code_simp
  show ?thesis
    using no_usable_records_error [OF stable_argsort_ok, of "[] :: int raw_record list"]
      no_usable_records_error [OF stable_argsort_ok,
        of "[\<lparr>ID = ''ABC'', Latitude = 1 :: int, Longitude = 2\<rparr>]"]
      stable_argsort_ok a
    by simp
qed

text \<open>The claim as the specification words it promises a result for every frame
  with a row. A frame whose one row is labelled with 4301 nines raises
  \<open>ValueError\<close>.\<close>

theorem nonempty_frame_raises_counterexample:
  "argsort_ok stable_argsort
   \<and> [\<lparr>ID = replicate 4301 CHR ''9'', Latitude = 0 :: int, Longitude = 0\<rparr>] \<noteq> []
   \<and> process_kml_file stable_argsort
        [\<lparr>ID = replicate 4301 CHR ''9'', Latitude = 0 :: int, Longitude = 0\<rparr>] = Inl ValueError"
proof -
  let ?run = "replicate 4301 CHR ''9''"
  have digits: "list_all isdigit ?run"
    by (simp add: list_all_iff isdigit_def)
  have "re_search_digits ([] @ ?run @ []) = Some ?run"
    using digits by (intro re_search_digits_decomp) simp_all
  then have "extract_number (PyStr ?run) = int_of_run ?run"
    by (simp add: extract_number_first_run)
  moreover have "lstrip_zeros ?run = ?run"
    by (simp add: lstrip_zeros_def dropWhile_replicate)
  then have "int_of_run ?run = Inl ValueError"
    using digits by (intro int_of_run_beyond) (simp_all add: int_max_str_digits_def)
  ultimately have "extract_number (PyStr ?run) = Inl ValueError"
    by simp
  then have "process_kml_file stable_argsort
      [\<lparr>ID = ?run, Latitude = 0 :: int, Longitude = 0\<rparr>] = Inl ValueError"
    by (intro process_kml_file_raises) simp_all
  then show ?thesis
    using stable_argsort_ok by simp
qed

text \<open>
  Claim C3. Whenever \<open>process_kml_file\<close> returns a report, \<open>duplicate_numbers\<close>
  holds exactly the positive keys that \<open>extract_number\<close> gives to two rows or more; 0
  is never among them; \<open>duplicate_count\<close> is the number of these keys; and the list
  ascends, each key once. It returns a report on every frame with a row on whose
  labels \<open>extract_number\<close> does not raise.
\<close>

theorem duplicate_report:
  assumes "argsort_ok argsort" and "process_kml_file argsort recs = Inr (df, res)"
  shows "set (duplicate_numbers res)
        = {k. 0 < k \<and> 2 \<le> length (filter (\<lambda>r. extract_number (PyStr (ID r)) = Inr k) recs)}
    \<and> 0 \<notin> set (duplicate_numbers res)
    \<and> duplicate_count res = card (set (duplicate_numbers res))
    \<and> sorted (duplicate_numbers res) \<and> distinct (duplicate_numbers res)"
proof -
  have ne: "recs \<noteq> []"
    and ok: "\<forall>r \<in> set recs. extract_number (PyStr (ID r)) \<noteq> Inl ValueError"
    using process_kml_file_Inr_D [OF assms(2)] by blast+
  let ?df = "sort_values argsort (map keyed recs)"
  let ?ks = "map number ?df"
  let ?dups = "filter (\<lambda>num. 0 < num) (unique (filter (\<lambda>k. 2 \<le> count_list ?ks k) ?ks))"
  have res: "duplicate_numbers res = ?dups" "duplicate_count res = length ?dups"
    using assms(2) process_kml_file_returns [OF ne ok, of argsort] by auto
  have key: "(number_of (ID r) = k) = (extract_number (PyStr (ID r)) = Inr k)"
    if "r \<in> set recs" for r k
  proof -
    have "extract_number (PyStr (ID r)) = Inr (number_of (ID r))"
      using ok that by (intro extract_number_number_of) blast
    then show ?thesis by simp
  qed
  have "mset ?ks = mset (map number (map keyed recs))"
    using sort_values_mset [OF assms(1), of "map keyed recs"] by (metis mset_map)
  then have c1: "count_list ?ks k = count_list (map (\<lambda>r. number_of (ID r)) recs) k" for k
    using count_list_mset_cong [of ?ks "map number (map keyed recs)" k] by (simp add: comp_def)
  have c2: "count_list (map (\<lambda>r. number_of (ID r)) recs) k
      = length (filter (\<lambda>r. number_of (ID r) = k) recs)" for k
    by (rule count_list_map_filter)
  have c3: "filter (\<lambda>r. number_of (ID r) = k) recs
      = filter (\<lambda>r. extract_number (PyStr (ID r)) = Inr k) recs" for k
    by (rule filter_cong [OF refl]) (rule key)
  have cnt: "count_list ?ks k
      = length (filter (\<lambda>r. extract_number (PyStr (ID r)) = Inr k) recs)" for k
    by (simp only: c1 c2 c3)
  have "set ?dups = {k. 0 < k \<and> 2 \<le> count_list ?ks k}"
    by (auto simp: unique_def set_unique_from dest: count_list_pos_mem)
  then have s: "set ?dups
      = {k. 0 < k \<and> 2 \<le> length (filter (\<lambda>r. extract_number (PyStr (ID r)) = Inr k) recs)}"
    by (simp only: cnt)
  have "sorted ?ks"
    using assms(1) by (rule sort_values_sorted)
  then have "sorted (filter (\<lambda>k. 2 \<le> count_list ?ks k) ?ks)"
    by (rule sorted_wrt_filter)
  then have "sorted (unique (filter (\<lambda>k. 2 \<le> count_list ?ks k) ?ks))"
    unfolding unique_def by (rule sorted_unique_from)
  then have so: "sorted ?dups"
    by (rule sorted_wrt_filter)
  have di: "distinct ?dups"
    by (simp add: unique_def distinct_unique_from)
  then have "length ?dups = card (set ?dups)"
    by (rule distinct_card [symmetric])
  moreover have "0 \<notin> set ?dups"
    by simp
  ultimately show ?thesis
    using s so di by (simp only: res simp_thms)
qed

theorem duplicate_report_witness:
  "argsort_ok stable_argsort
   \<and> (\<exists>df res.
        process_kml_file stable_argsort
          [\<lparr>ID = ''P5'', Latitude = 1 :: int, Longitude = 1\<rparr>,
           \<lparr>ID = ''ABC'', Latitude = 2, Longitude = 2\<rparr>,
           \<lparr>ID = ''Pole 3'', Latitude = 3, Longitude = 3\<rparr>,
           \<lparr>ID = ''5'', Latitude = 4, Longitude = 4\<rparr>,
           \<lparr>ID = ''DEF'', Latitude = 5, Longitude = 5\<rparr>,
           \<lparr>ID = ''003'', Latitude = 6, Longitude = 6\<rparr>,
           \<lparr>ID = ''p 5 x'', Latitude = 7, Longitude = 7\<rparr>] = Inr (df, res)
        \<and> duplicate_numbers res = [3, 5] \<and> duplicate_count res = 2
        \<and> 0 \<notin> set (duplicate_numbers res) \<and> sorted (duplicate_numbers res))"
proof -
  let ?recs = "[\<lparr>ID = ''P5'', Latitude = 1 :: int, Longitude = 1\<rparr>,
           \<lparr>ID = ''ABC'', Latitude = 2, Longitude = 2\<rparr>,
           \<lparr>ID = ''Pole 3'', Latitude = 3, Longitude = 3\<rparr>,
           \<lparr>ID = ''5'', Latitude = 4, Longitude = 4\<rparr>,
           \<lparr>ID = ''DEF'', Latitude = 5, Longitude = 5\<rparr>,
           \<lparr>ID = ''003'', Latitude = 6, Longitude = 6\<rparr>,
           \<lparr>ID = ''p 5 x'', Latitude = 7, Longitude = 7\<rparr>]"
  have e: "map_sum id (\<lambda>(df, res). (duplicate_numbers res, duplicate_count res))
      (process_kml_file stable_argsort ?recs) = Inr ([3, 5], 2)"
    by code_simp
  obtain df res where r: "process_kml_file stable_argsort ?recs = Inr (df, res)"
    using e by (cases "process_kml_file stable_argsort ?recs") auto
  have p: "0 \<notin> set (duplicate_numbers res)" "sorted (duplicate_numbers res)"
    using duplicate_report [OF stable_argsort_ok r] by blast+
  from e r have "duplicate_numbers res = [3, 5]" "duplicate_count res = 2"
    by simp_all
  with r p stable_argsort_ok show ?thesis
    by blast
qed

text \<open>
  Claim C9. The rows of the result are the rows of the input in another order, each
  with its \<open>ID\<close>, \<open>Latitude\<close> and \<open>Longitude\<close> as they were: there is a
  rearrangement \<open>p\<close> of the positions such that row \<open>j\<close> of the result carries the
  three values of input row \<open>p ! j\<close>. The two added columns are the key of the row's
  \<open>ID\<close> and the identifier formatted from it, and the sample is cut from the same
  rows.
\<close>

theorem coordinates_pass_through:
  assumes "argsort_ok argsort" and "process_kml_file argsort recs = Inr (df, res)"
  shows "length df = length recs
    \<and> mset (map raw_of df) = mset recs
    \<and> (\<exists>p. mset p = mset [0..<length recs]
          \<and> (\<forall>j < length df.
                ID (df ! j) = ID (recs ! (p ! j))
              \<and> Latitude (df ! j) = Latitude (recs ! (p ! j))
              \<and> Longitude (df ! j) = Longitude (recs ! (p ! j))))
    \<and> (\<forall>r \<in> set df. extract_number (PyStr (ID r)) = Inr (number r)
          \<and> formatted_ID r = format_id (ID r) (number r))
    \<and> sample_data res = take 10 df"
proof -
  have ne: "recs \<noteq> []"
    and ok: "\<forall>r \<in> set recs. extract_number (PyStr (ID r)) \<noteq> Inl ValueError"
    using process_kml_file_Inr_D [OF assms(2)] by blast+
  let ?p = "argsort (map number (map keyed recs))"
  have df: "df = sort_values argsort (map keyed recs)" and res: "sample_data res = take 10 df"
    using assms(2) process_kml_file_returns [OF ne ok, of argsort] by auto
  have len: "length df = length recs"
    using assms(1) by (simp add: df sort_values_length)
  have "mset df = mset (map keyed recs)"
    using assms(1) by (simp add: df sort_values_mset)
  then have "mset (map raw_of df) = mset (map raw_of (map keyed recs))"
    by (metis mset_map)
  then have ms: "mset (map raw_of df) = mset recs"
    by (simp add: comp_def)
  have p: "mset ?p = mset [0..<length recs]"
    using assms(1) by (simp add: argsort_ok_def)
  have "df ! j = keyed (recs ! (?p ! j))" if "j < length df" for j
  proof -
    have j: "j < length ?p"
      using that by (simp add: df sort_values_def)
    then have "?p ! j \<in> set ?p"
      by (rule nth_mem)
    then have "?p ! j < length recs"
      using argsort_ok_set [OF assms(1), of "map number (map keyed recs)"] by simp
    then show ?thesis
      using j by (simp add: df sort_values_def)
  qed
  then have "\<forall>j < length df.
        ID (df ! j) = ID (recs ! (?p ! j))
      \<and> Latitude (df ! j) = Latitude (recs ! (?p ! j))
      \<and> Longitude (df ! j) = Longitude (recs ! (?p ! j))"
    by (simp add: keyed_def add_columns_def)
  with p have "\<exists>p. mset p = mset [0..<length recs]
          \<and> (\<forall>j < length df.
                ID (df ! j) = ID (recs ! (p ! j))
              \<and> Latitude (df ! j) = Latitude (recs ! (p ! j))
              \<and> Longitude (df ! j) = Longitude (recs ! (p ! j)))"
    by blast
  moreover have "\<forall>r \<in> set df. extract_number (PyStr (ID r)) = Inr (number r)
      \<and> formatted_ID r = format_id (ID r) (number r)"
  proof
    fix r assume "r \<in> set df"
    then have "r \<in> set (map keyed recs)"
      using assms(1) by (simp add: df sort_values_set)
    then obtain r0 where r0: "r0 \<in> set recs" "r = keyed r0"
      by auto
    then have "extract_number (PyStr (ID r0)) = Inr (number_of (ID r0))"
      using ok by (intro extract_number_number_of) blast
    then show "extract_number (PyStr (ID r)) = Inr (number r)
        \<and> formatted_ID r = format_id (ID r) (number r)"
      using r0(2) by (simp add: keyed_def add_columns_def)
  qed
  ultimately show ?thesis
    using len ms res by blast
qed

theorem coordinates_pass_through_witness:
  "argsort_ok stable_argsort
   \<and> (\<exists>df res.
        process_kml_file stable_argsort
          [\<lparr>ID = ''Pole 7'', Latitude = 10 :: int, Longitude = 11\<rparr>,
           \<lparr>ID = ''ABC'', Latitude = 20, Longitude = 21\<rparr>,
           \<lparr>ID = ''P003'', Latitude = 30, Longitude = 31\<rparr>] = Inr (df, res)
        \<and> map (\<lambda>r. (ID r, Latitude r, Longitude r)) df
            = [(''ABC'', 20, 21), (''P003'', 30, 31), (''Pole 7'', 10, 11)]
        \<and> mset (map raw_of df)
            = mset [\<lparr>ID = ''Pole 7'', Latitude = 10 :: int, Longitude = 11\<rparr>,
                    \<lparr>ID = ''ABC'', Latitude = 20, Longitude = 21\<rparr>,
                    \<lparr>ID = ''P003'', Latitude = 30, Longitude = 31\<rparr>])"
proof -
  let ?recs = "[\<lparr>ID = ''Pole 7'', Latitude = 10 :: int, Longitude = 11\<rparr>,
           \<lparr>ID = ''ABC'', Latitude = 20, Longitude = 21\<rparr>,
           \<lparr>ID = ''P003'', Latitude = 30, Longitude = 31\<rparr>]"
  have e: "map_sum id (\<lambda>(df, res). map (\<lambda>r. (ID r, Latitude r, Longitude r)) df)
      (process_kml_file stable_argsort ?recs)
      = Inr [(''ABC'', 20, 21), (''P003'', 30, 31), (''Pole 7'', 10, 11)]"
    by code_simp
  then obtain df res where r: "process_kml_file stable_argsort ?recs = Inr (df, res)"
    by (cases "process_kml_file stable_argsort ?recs") auto
  from coordinates_pass_through [OF stable_argsort_ok r]
  have a: "mset (map raw_of df) = mset ?recs"
    by blast
  from e r have b: "map (\<lambda>r. (ID r, Latitude r, Longitude r)) df
      = [(''ABC'', 20, 21), (''P003'', 30, 31), (''Pole 7'', 10, 11)]"
    by simp
  show ?thesis
    by (intro conjI exI [of _ df] exI [of _ res]) (rule stable_argsort_ok r a b)+
qed

text \<open>
  Claim C6. In a row of the result whose \<open>number\<close> is positive, \<open>formatted_ID\<close> is
  the letter P followed by the decimal digits of \<open>number\<close>, which do not start with a
  zero and have \<open>number\<close> as their value; and \<open>extract_number\<close> on \<open>formatted_ID\<close>
  returns \<open>number\<close> again.
\<close>

theorem display_id_round_trip:
  assumes "argsort_ok argsort" and "process_kml_file argsort recs = Inr (df, res)"
    and "r \<in> set df" and "0 < number r"
  shows "formatted_ID r = CHR ''P'' # py_str (number r)
    \<and> list_all isdigit (py_str (number r))
    \<and> hd (py_str (number r)) \<noteq> CHR ''0''
    \<and> decimal_value (py_str (number r)) = number r
    \<and> extract_number (PyStr (formatted_ID r)) = Inr (number r)"
proof -
  have ne: "recs \<noteq> []"
    and ok: "\<forall>r \<in> set recs. extract_number (PyStr (ID r)) \<noteq> Inl ValueError"
    using process_kml_file_Inr_D [OF assms(2)] by blast+
  have "df = sort_values argsort (map keyed recs)"
    using assms(2) process_kml_file_returns [OF ne ok, of argsort] by auto
  then have "r \<in> set (map keyed recs)"
    using assms(1,3) by (simp add: sort_values_set)
  then obtain r0 where r0: "r0 \<in> set recs" "r = keyed r0"
    by auto
  then have f: "formatted_ID r = CHR ''P'' # py_str (number r)"
    using assms(4) by (simp add: formatted_keyed format_id_def)
  have "extract_number (PyStr (ID r0)) = Inr (number_of (ID r0))"
    using ok r0(1) by (intro extract_number_number_of) blast
  then have "extract_number (PyStr (ID r0)) = Inr (number r)"
    using r0(2) by simp
  then have len: "length (py_str (number r)) \<le> int_max_str_digits"
    using assms(4) by (rule returned_key_digits)
  have n: "0 < nat (number r)"
    using assms(4) by simp
  have "extract_number (PyStr (formatted_ID r)) = Inr (number r)"
    using extract_number_display [OF assms(4) len] by (simp only: f)
  then show ?thesis
    using assms(4) f hd_digits_of [OF n]
    by (simp add: py_str_pos digits_of_digits decimal_value_digits_of)
qed

theorem display_id_round_trip_witness:
  "argsort_ok stable_argsort
   \<and> process_kml_file stable_argsort [\<lparr>ID = ''Pole 007'', Latitude = 1 :: int, Longitude = 2\<rparr>]
      = Inr ([\<lparr>ID = ''Pole 007'', Latitude = 1, Longitude = 2, number = 7, formatted_ID = ''P7''\<rparr>],
             \<lparr>total_poles = 1, duplicate_numbers = [], duplicate_count = 0,
              sample_data = [\<lparr>ID = ''Pole 007'', Latitude = 1, Longitude = 2, number = 7,
                               formatted_ID = ''P7''\<rparr>]\<rparr>)
   \<and> py_str 7 = ''7''
   \<and> extract_number (PyStr ''P7'') = Inr 7"
proof -
  let ?r = "\<lparr>ID = ''Pole 007'', Latitude = 1 :: int, Longitude = 2, number = 7, formatted_ID = ''P7''\<rparr>"
  have e: "process_kml_file stable_argsort [\<lparr>ID = ''Pole 007'', Latitude = 1 :: int, Longitude = 2\<rparr>]
      = Inr ([?r], \<lparr>total_poles = 1, duplicate_numbers = [], duplicate_count = 0,
              sample_data = [?r]\<rparr>)"
    by code_simp
  have s: "py_str 7 = ''7''"
    by code_simp
  from display_id_round_trip [OF stable_argsort_ok e, of ?r]
  have "extract_number (PyStr ''P7'') = Inr 7"
    by (simp add: s)
  with e s stable_argsort_ok show ?thesis
    by blast
qed

end
